theory Spec2Isabelle
  imports Complex_Main
begin

section \<open>Python values, errors and library functions\<close>

text \<open>
  The module \<^verbatim>\<open>inference/pdf_tools.py\<close> computes with numpy arrays of floats. The
  embedding takes a float to be a \<^typ>\<open>real\<close> and a one-dimensional array to be a
  \<^typ>\<open>real list\<close>; rounding, overflow and NaN are outside the model. A Python
  exception is a value of \<open>py_error\<close>, and a function that can raise returns
  \<open>py_error + 'a\<close> with \<open>Inl\<close> for the exception.
\<close>

datatype py_error =
  ValueError string
  | IndexError
  | KeyError
  | TypeError
  | ZeroDivisionError
  | OverflowError

text \<open>\<^verbatim>\<open>int(r)\<close> of a float: truncation towards zero.\<close>

definition py_int :: "real \<Rightarrow> int" where
  "py_int r = (if 0 \<le> r then \<lfloor>r\<rfloor> else \<lceil>r\<rceil>)"

text \<open>\<^verbatim>\<open>xs[i]\<close>: a negative index counts from the end, an index out of range raises.\<close>

definition getitem :: "'a list \<Rightarrow> int \<Rightarrow> py_error + 'a" where
  "getitem xs i =
     (if 0 \<le> i \<and> i < int (length xs) then Inr (xs ! nat i)
      else if i < 0 \<and> - int (length xs) \<le> i then Inr (xs ! nat (int (length xs) + i))
      else Inl IndexError)"

text \<open>
  A slice bound is clamped to the array: \<^verbatim>\<open>xs[i:]\<close> and \<^verbatim>\<open>xs[:i]\<close> never
  raise.
\<close>

definition slice_index :: "nat \<Rightarrow> int \<Rightarrow> nat" where
  "slice_index n i = (if i < 0 then nat (max 0 (int n + i)) else min n (nat i))"

definition slice_from :: "'a list \<Rightarrow> int \<Rightarrow> 'a list" where
  "slice_from xs i = drop (slice_index (length xs) i) xs"

definition slice_to :: "'a list \<Rightarrow> int \<Rightarrow> 'a list" where
  "slice_to xs i = take (slice_index (length xs) i) xs"

text \<open>
  numpy's \<^verbatim>\<open>argmin\<close> and \<^verbatim>\<open>argmax\<close>, by their documentation: the index of the
  first occurrence of the least (greatest) element; an empty array raises ValueError.
\<close>

definition argmin :: "real list \<Rightarrow> py_error + nat" where
  "argmin ws =
     (case ws of
        [] \<Rightarrow> Inl (ValueError ''attempt to get argmin of an empty sequence'')
      | w # rest \<Rightarrow> Inr (length (takeWhile (\<lambda>x. x \<noteq> fold min rest w) ws)))"

definition argmax :: "real list \<Rightarrow> py_error + nat" where
  "argmax ws =
     (case ws of
        [] \<Rightarrow> Inl (ValueError ''attempt to get argmax of an empty sequence'')
      | w # rest \<Rightarrow> Inr (length (takeWhile (\<lambda>x. x \<noteq> fold max rest w) ws)))"

section \<open>The highest-density interval of a sample\<close>

subsection \<open>The objective of the double-interval search\<close>

record dbl_interval_length =
  dil_sample :: "real list"
  dil_f :: real
  dil_N :: nat
  dil_L :: int
  dil_space :: int
  dil_max_length :: real

text \<open>\<^verbatim>\<open>dbl_interval_length.__init__\<close>\<close>

definition dbl_interval_length_init ::
  "real list \<Rightarrow> real \<Rightarrow> py_error + dbl_interval_length" where
  "dbl_interval_length_init sample fraction =
     (let srt = sort sample;
          N = length sample;
          L = py_int (fraction * real N)
      in case getitem srt (- 1) of Inl e \<Rightarrow> Inl e | Inr s_last \<Rightarrow>
         (case getitem srt 0 of Inl e \<Rightarrow> Inl e | Inr s_first \<Rightarrow>
            Inr \<lparr> dil_sample = srt, dil_f = fraction, dil_N = N, dil_L = L,
                  dil_space = int N - L, dil_max_length = s_last - s_first \<rparr>))"

definition get_bounds :: "dbl_interval_length \<Rightarrow> (real \<times> real) list" where
  "get_bounds d =
     [(0, 1), (0, real_of_int (dil_space d - 1)), (0, real_of_int (dil_space d - 1))]"

text \<open>\<^verbatim>\<open>dbl_interval_length.__call__\<close>: the summed width of the two windows.\<close>

definition dbl_call :: "dbl_interval_length \<Rightarrow> real \<times> real \<times> real \<Rightarrow> py_error + real" where
  "dbl_call d paras =
     (case paras of (f1, p1, p2) \<Rightarrow>
        let start = py_int p1; gap = py_int p2 in
        if start + gap > dil_space d - 1 then Inr (dil_max_length d)
        else
          let w1 = py_int (f1 * real_of_int (dil_L d));
              w2 = dil_L d - w1;
              start_2 = start + w1 + gap
          in case getitem (dil_sample d) (start + w1) of Inl e \<Rightarrow> Inl e | Inr a1 \<Rightarrow>
             (case getitem (dil_sample d) start of Inl e \<Rightarrow> Inl e | Inr a0 \<Rightarrow>
             (case getitem (dil_sample d) (start_2 + w2) of Inl e \<Rightarrow> Inl e | Inr b1 \<Rightarrow>
             (case getitem (dil_sample d) start_2 of Inl e \<Rightarrow> Inl e | Inr b0 \<Rightarrow>
                Inr ((a1 - a0) + (b1 - b0))))))"

text \<open>\<^verbatim>\<open>dbl_interval_length.return_intervals\<close>: no check of \<open>start + gap\<close> here.\<close>

definition return_intervals ::
  "dbl_interval_length \<Rightarrow> real \<times> real \<times> real \<Rightarrow> py_error + ((real \<times> real) \<times> (real \<times> real))" where
  "return_intervals d paras =
     (case paras of (f1, p1, p2) \<Rightarrow>
        let start = py_int p1; gap = py_int p2;
            w1 = py_int (f1 * real_of_int (dil_L d));
            w2 = dil_L d - w1;
            start_2 = start + w1 + gap
        in case getitem (dil_sample d) start of Inl e \<Rightarrow> Inl e | Inr a0 \<Rightarrow>
           (case getitem (dil_sample d) (start + w1) of Inl e \<Rightarrow> Inl e | Inr a1 \<Rightarrow>
           (case getitem (dil_sample d) start_2 of Inl e \<Rightarrow> Inl e | Inr b0 \<Rightarrow>
           (case getitem (dil_sample d) (start_2 + w2) of Inl e \<Rightarrow> Inl e | Inr b1 \<Rightarrow>
              Inr ((a0, a1), (b0, b1))))))"

subsection \<open>\<^verbatim>\<open>sample_hdi\<close>\<close>

text \<open>
  scipy's \<^verbatim>\<open>differential_evolution\<close> is a stochastic optimiser outside the
  repository. The model takes it as a parameter: any function from the objective and
  its bounds to the parameter vector \<^verbatim>\<open>de_result.x\<close>.
\<close>

type_synonym optimizer =
  "(real \<times> real \<times> real \<Rightarrow> py_error + real) \<Rightarrow> (real \<times> real) list \<Rightarrow> real \<times> real \<times> real"

datatype warning = InsufficientSamples | SmallRemainder

datatype hdi = Single "real \<times> real" | Double "real \<times> real" "real \<times> real"

text \<open>\<^verbatim>\<open>widths = s[L:] - s[:n-L]\<close>\<close>

definition hdi_widths :: "real list \<Rightarrow> int \<Rightarrow> real list" where
  "hdi_widths s L = map2 (-) (slice_from s L) (slice_to s (int (length s) - L))"

definition sample_hdi ::
  "optimizer \<Rightarrow> real list \<Rightarrow> real \<Rightarrow> bool \<Rightarrow> py_error + (warning list \<times> hdi)" where
  "sample_hdi differential_evolution sample fraction force_single =
     (if \<not> (0 < fraction \<and> fraction < 1)
      then Inl (ValueError ''fraction parameter must be between 0 and 1'')
      else if length sample < 2
      then Inl (ValueError ''The sample must have at least 2 elements'')
      else
        let s = sort sample; n = length s; L = py_int (fraction * real n) in
        if int n \<le> L then
          (case getitem s 0 of Inl e \<Rightarrow> Inl e | Inr s_first \<Rightarrow>
          (case getitem s (- 1) of Inl e \<Rightarrow> Inl e | Inr s_last \<Rightarrow>
             Inr ([InsufficientSamples], Single (s_first, s_last))))
        else
          let warned = (if int n - L < 20 then [SmallRemainder] else []) in
          case argmin (hdi_widths s L) of Inl e \<Rightarrow> Inl e | Inr i \<Rightarrow>
          (case getitem s (int i) of Inl e \<Rightarrow> Inl e | Inr lo \<Rightarrow>
          (case getitem s (int i + L) of Inl e \<Rightarrow> Inl e | Inr hi \<Rightarrow>
             let r1 = (lo, hi); w1 = hi - lo in
             if force_single then Inr (warned, Single r1)
             else
               (case dbl_interval_length_init sample fraction of Inl e \<Rightarrow> Inl e | Inr minfunc \<Rightarrow>
                  let x = differential_evolution (dbl_call minfunc) (get_bounds minfunc) in
                  (case return_intervals minfunc x of Inl e \<Rightarrow> Inl e | Inr (I1, I2) \<Rightarrow>
                     let w2 = (snd I2 - fst I2) + (snd I1 - fst I1) in
                     if w2 < w1 * 0.99 then Inr (warned, Double I1 I2)
                     else Inr (warned, Single r1))))))"

text \<open>
  The part of the search space where \<^verbatim>\<open>__call__\<close> does not return the penalty
  \<^verbatim>\<open>max_length\<close> and the parameters respect \<^verbatim>\<open>get_bounds\<close>.
\<close>

definition in_search_region :: "dbl_interval_length \<Rightarrow> real \<times> real \<times> real \<Rightarrow> bool" where
  "in_search_region d paras =
     (case paras of (f1, p1, p2) \<Rightarrow>
        0 \<le> f1 \<and> f1 \<le> 1 \<and> 0 \<le> p1 \<and> 0 \<le> p2 \<and> py_int p1 + py_int p2 \<le> dil_space d - 1)"

section \<open>The base estimator's binary search\<close>

text \<open>
  The loop of \<^verbatim>\<open>DensityEstimator.binary_search\<close>, entered with \<open>x\<close> the midpoint
  of the bracket. It has no iteration cap, so the model is a partial function: \<open>None\<close>
  is a run that never leaves the loop. The quotient \<^verbatim>\<open>(x_max - x_min)/x\<close> raises
  ZeroDivisionError for Python floats when \<open>x = 0\<close> (numpy scalars give inf or nan
  there, and the test fails); the model raises.
\<close>

partial_function (option) binary_search_loop ::
  "(real \<Rightarrow> real) \<Rightarrow> real \<Rightarrow> bool \<Rightarrow> real \<Rightarrow> real \<Rightarrow> real \<Rightarrow> (py_error + real \<times> real) option" where
  "binary_search_loop func val uphill x_min x_max x =
     (let f = func x;
          x_max' = (if f > val then (if uphill then x else x_max)
                    else (if uphill then x_max else x));
          x_min' = (if f > val then (if uphill then x_min else x)
                    else (if uphill then x else x_min));
          x' = (x_min' + x_max') * 0.5
      in if x' = 0 then Some (Inl ZeroDivisionError)
         else if \<bar>(x_max' - x_min') / x'\<bar> < 0.001 then Some (Inr (x_min', x_max'))
         else binary_search_loop func val uphill x_min' x_max' x')"

text \<open>
  \<^verbatim>\<open>binary_search(func, value, bounds, uphill)\<close>: the loop, then one step of linear
  interpolation between the ends of the final bracket.
\<close>

definition binary_search ::
  "(real \<Rightarrow> real) \<Rightarrow> real \<Rightarrow> real \<times> real \<Rightarrow> bool \<Rightarrow> (py_error + real) option" where
  "binary_search func val bounds uphill =
     (case bounds of (x_min, x_max) \<Rightarrow>
        (case binary_search_loop func val uphill x_min x_max ((x_min + x_max) * 0.5) of
           None \<Rightarrow> None
         | Some (Inl e) \<Rightarrow> Some (Inl e)
         | Some (Inr (a, b)) \<Rightarrow>
             let f_max = func b; f_min = func a; df = f_max - f_min in
             if df = 0 then Some (Inl ZeroDivisionError)
             else Some (Inr (a * ((f_max - val) / df) + b * ((val - f_min) / df)))))"

text \<open>
  For stating when the loop ends: \<open>midpoint\<close> is the value \<^verbatim>\<open>(x_min + x_max) * 0.5\<close>
  of \<^verbatim>\<open>x\<close> for a bracket, \<open>narrow\<close> is the bracket after one pass of the loop body
  entered with \<^verbatim>\<open>x\<close> at the midpoint (one end moves to \<^verbatim>\<open>x\<close>), and
  \<open>bracket_after \<dots> k\<close> is the bracket after \<open>k\<close> passes.
\<close>

definition midpoint :: "real \<times> real \<Rightarrow> real" where
  "midpoint bounds = (fst bounds + snd bounds) * 0.5"



section \<open>The parametric estimator \<^verbatim>\<open>UnimodalPdf\<close>\<close>

text \<open>
  The state \<^verbatim>\<open>posterior\<close> reads: the (sub)sample \<^verbatim>\<open>self.x\<close>, its length
  \<^verbatim>\<open>self.n\<close>, and the quadrature nodes \<^verbatim>\<open>self.u\<close>, weights \<^verbatim>\<open>self.w\<close> and scale
  \<^verbatim>\<open>self.sd\<close> of the normaliser.
\<close>

record UnimodalPdf =
  up_x :: "real list"
  up_n :: nat
  up_sd :: real
  up_u :: "real list"
  up_w :: "real list"

type_synonym paras = "real \<times> real \<times> real \<times> real \<times> real \<times> real"

text \<open>
  \<^verbatim>\<open>sample[::skip]\<close> and the part of \<^verbatim>\<open>UnimodalPdf.__init__\<close> that comes before the
  optimiser is called: the 128 Chebyshev nodes and weights, and the subsample.
\<close>

fun every_nth :: "nat \<Rightarrow> nat \<Rightarrow> 'a list \<Rightarrow> 'a list" where
  "every_nth skip i [] = []"
| "every_nth skip i (x # xs) =
     (if i = 0 then x # every_nth skip (skip - 1) xs else every_nth skip (i - 1) xs)"

definition UnimodalPdf_setup :: "real list \<Rightarrow> UnimodalPdf" where
  "UnimodalPdf_setup sample =
     (let n_samps = length sample;
          sd = 0.2;
          n_nodes = 128;
          ks = map real [1..<n_nodes + 1];
          ts = map (\<lambda>k. cos (0.5 * pi * ((2 * k - 1) / real n_nodes))) ks;
          cutoff = 2000;
          skip = (if n_samps div cutoff = 0 then 1 else n_samps div cutoff);
          xs = every_nth skip 0 sample
      in \<lparr> up_x = xs, up_n = length xs, up_sd = sd,
            up_u = map (\<lambda>t. t / (1 - t\<^sup>2)) ts,
            up_w = map (\<lambda>t. (pi / real n_nodes) * (1 + t\<^sup>2) / (sd * (1 - t\<^sup>2) powr 1.5)) ts \<rparr>)"

text \<open>
  \<^verbatim>\<open>log_pdf_model(x, pvec)\<close> on an array \<open>x\<close>: numpy applies the formula to every
  element. \<^verbatim>\<open>abs(z)**q\<close> is \<open>\<bar>z\<bar> powr q\<close> (both are 0 at \<open>z = 0\<close> for \<open>q > 0\<close>).
\<close>

definition log_pdf_model :: "real list \<Rightarrow> paras \<Rightarrow> real list" where
  "log_pdf_model xs pvec =
     (case pvec of (x0, s0, v, f, k, q) \<Rightarrow>
        map (\<lambda>x.
          let v' = exp v + 1;
              z0 = (x - x0) / s0;
              ds = exp (f * tanh (z0 / k));
              z = z0 / ds
          in - (0.5 * (1 + v')) * ln (1 + (\<bar>z\<bar> powr q) / v')) xs)"

definition pdf_model :: "real list \<Rightarrow> paras \<Rightarrow> real list" where
  "pdf_model xs pvec = map exp (log_pdf_model xs pvec)"

text \<open>\<^verbatim>\<open>norm(pvec)\<close>: the quadrature of the model with location 0 and scale \<open>sd\<close>.\<close>

definition norm_const :: "UnimodalPdf \<Rightarrow> paras \<Rightarrow> real" where
  "norm_const self pvec =
     (case pvec of (x0, s0, v, f, k, q) \<Rightarrow>
        let vs = pdf_model (up_u self) (0, up_sd self, v, f, k, q);
            integral = sum_list (map2 (*) (up_w self) vs) * s0
        in integral)"

text \<open>\<^verbatim>\<open>posterior(paras)\<close>, with the prior checks; the sentinel is \<open>-1e50\<close>.\<close>

definition posterior :: "UnimodalPdf \<Rightarrow> paras \<Rightarrow> real" where
  "posterior self pvec =
     (case pvec of (x0, s0, v, f, k, q) \<Rightarrow>
        if s0 > 0 \<and> (0 < k \<and> k < 20) \<and> (1 < q \<and> q < 6)
        then sum_list (log_pdf_model (up_x self) pvec)
               - real (up_n self) * ln (norm_const self pvec)
        else - (10 ^ 50))"

text \<open>\<^verbatim>\<open>UnimodalPdf.minfunc\<close>, the objective handed to the optimiser.\<close>

definition UnimodalPdf_minfunc :: "UnimodalPdf \<Rightarrow> paras \<Rightarrow> real" where
  "UnimodalPdf_minfunc self pvec = - posterior self pvec"

section \<open>The spatial index \<^verbatim>\<open>BinaryTree\<close>\<close>

text \<open>
  The tree is a nested Python list: a leaf is \<^verbatim>\<open>[lo, hi, mid]\<close>, an inner node is
  \<^verbatim>\<open>[left, right, key]\<close>. The model keeps that shape, so that what \<^verbatim>\<open>lookup\<close>
  returns is the very list the code returns.
\<close>

datatype node = Num real | Lst "node list"

text \<open>\<^verbatim>\<open>D[i]\<close> and \<^verbatim>\<open>D[2]\<close> read as a number; a float cannot be indexed.\<close>

fun subscript :: "node \<Rightarrow> int \<Rightarrow> py_error + node" where
  "subscript (Lst xs) i = getitem xs i"
| "subscript (Num _) i = Inl TypeError"

definition item2 :: "node \<Rightarrow> py_error + real" where
  "item2 D =
     (case subscript D 2 of
        Inl e \<Rightarrow> Inl e
      | Inr (Num key) \<Rightarrow> Inr key
      | Inr (Lst _) \<Rightarrow> Inl TypeError)"

text \<open>
  numpy's \<^verbatim>\<open>linspace(start, stop, num)\<close>: \<open>num\<close> evenly spaced points, the step
  being \<open>(stop - start) / (num - 1)\<close>.
\<close>

definition linspace :: "real \<Rightarrow> real \<Rightarrow> nat \<Rightarrow> real list" where
  "linspace start stop num =
     map (\<lambda>i. start + real i * ((stop - start) / real (num - 1))) [0..<num]"

text \<open>The midpoints of consecutive points: \<^verbatim>\<open>0.5*(L[1:] + L[:-1])\<close>.\<close>

definition midpoints :: "real list \<Rightarrow> real list" where
  "midpoints L = map2 (\<lambda>a b. 0.5 * (a + b)) (tl L) (butlast L)"

text \<open>The trees of depth 1: \<^verbatim>\<open>[L[i], L[i+1], 0.5*(L[i]+L[i+1])]\<close> for \<open>i < 2^n\<close>.\<close>

definition leaf_nodes :: "real list \<Rightarrow> nat \<Rightarrow> node list" where
  "leaf_nodes L n =
     map (\<lambda>i. Lst [Num (L ! i), Num (L ! (i + 1)), Num (0.5 * (L ! i + L ! (i + 1)))])
       [0..<2 ^ n]"

text \<open>
  One pass of the merge loop: the nodes \<open>2i\<close> and \<open>2i+1\<close> become one node whose key is
  the mean of their third entries, for \<open>i < len(L) // 2\<close>.
\<close>

fun merge_pairs :: "node list \<Rightarrow> py_error + node list" where
  "merge_pairs (a # b # rest) =
     (case item2 a of Inl e \<Rightarrow> Inl e | Inr ka \<Rightarrow>
     (case item2 b of Inl e \<Rightarrow> Inl e | Inr kb \<Rightarrow>
     (case merge_pairs rest of Inl e \<Rightarrow> Inl e | Inr q \<Rightarrow>
        Inr (Lst [a, b, Num (0.5 * (ka + kb))] # q))))"
| "merge_pairs [a] = Inr []"
| "merge_pairs [] = Inr []"

text \<open>\<^verbatim>\<open>for k in range(self.n-1)\<close>\<close>

fun merge_times :: "nat \<Rightarrow> node list \<Rightarrow> py_error + node list" where
  "merge_times 0 L = Inr L"
| "merge_times (Suc k) L =
     (case merge_pairs L of Inl e \<Rightarrow> Inl e | Inr q \<Rightarrow> merge_times k q)"

record BinaryTree =
  bt_n :: nat
  bt_lims :: "real \<times> real"
  bt_midpoint :: real
  bt_mids :: "real list"
  bt_tree :: node

text \<open>
  \<^verbatim>\<open>BinaryTree.__init__(layers, limits)\<close>. After the merges the midpoint of the
  limits is appended to the list, whatever its length.
\<close>

definition BinaryTree_init :: "nat \<Rightarrow> real \<times> real \<Rightarrow> py_error + BinaryTree" where
  "BinaryTree_init layers limits =
     (let midpoint = 0.5 * (fst limits + snd limits);
          L = linspace (fst limits) (snd limits) (2 ^ layers + 1);
          mids = midpoints L
      in case merge_times (layers - 1) (leaf_nodes L layers) of
           Inl e \<Rightarrow> Inl e
         | Inr merged \<Rightarrow>
             Inr \<lparr> bt_n = layers, bt_lims = limits, bt_midpoint = midpoint,
                   bt_mids = mids, bt_tree = Lst (merged @ [Num midpoint]) \<rparr>)"

text \<open>\<^verbatim>\<open>lookup\<close>: \<open>n\<close> times \<^verbatim>\<open>D = D[val > D[2]]\<close>; \<open>True\<close> is the index 1.\<close>

fun lookup_steps :: "nat \<Rightarrow> node \<Rightarrow> real \<Rightarrow> py_error + node" where
  "lookup_steps 0 D val = Inr D"
| "lookup_steps (Suc i) D val =
     (case item2 D of Inl e \<Rightarrow> Inl e | Inr key \<Rightarrow>
     (case subscript D (if val > key then 1 else 0) of Inl e \<Rightarrow> Inl e | Inr D' \<Rightarrow>
        lookup_steps i D' val))"

definition lookup :: "BinaryTree \<Rightarrow> real \<Rightarrow> py_error + node" where
  "lookup self val = lookup_steps (bt_n self) (bt_tree self) val"

text \<open>
  The brute-force search the specification compares \<^verbatim>\<open>lookup\<close> with: the first of
  the \<open>2^layers\<close> equal-width buckets of \<open>[lo, hi]\<close>, in order, that contains \<open>x\<close>.
\<close>

fun in_bucket :: "real \<Rightarrow> node \<Rightarrow> bool" where
  "in_bucket x (Lst [Num a, Num b, Num m]) = (a \<le> x \<and> x \<le> b)"
| "in_bucket x _ = False"

definition linear_scan :: "nat \<Rightarrow> real \<times> real \<Rightarrow> real \<Rightarrow> node option" where
  "linear_scan layers limits x =
     find (in_bucket x)
       (leaf_nodes (linspace (fst limits) (snd limits) (2 ^ layers + 1)) layers)"

text \<open>
  For the proofs: the balanced tree of depth \<open>d\<close> over the buckets of width \<open>w\<close> that
  start at \<open>a\<close>, in closed form, and \<open>m\<close> such trees side by side.
\<close>

fun ptree :: "nat \<Rightarrow> real \<Rightarrow> real \<Rightarrow> node" where
  "ptree 0 a w = Lst [Num a, Num (a + w), Num (a + w / 2)]"
| "ptree (Suc d) a w = Lst [ptree d a w, ptree d (a + 2 ^ d * w) w, Num (a + 2 ^ d * w)]"

fun row :: "nat \<Rightarrow> real \<Rightarrow> real \<Rightarrow> nat \<Rightarrow> node list" where
  "row d a w 0 = []"
| "row d a w (Suc m) = ptree d a w # row d (a + 2 ^ d * w) w m"

section \<open>The kernel density estimator \<^verbatim>\<open>GaussianKDE\<close>\<close>

subsection \<open>Library functions\<close>

text \<open>
  numpy's \<^verbatim>\<open>searchsorted(a, v)\<close> (side left) on a sorted array: the number of
  elements below \<open>v\<close>. \<^verbatim>\<open>mean\<close> and \<^verbatim>\<open>std\<close> (the population standard deviation),
  \<^verbatim>\<open>logaddexp\<close>, and \<^verbatim>\<open>list.insert\<close>.
\<close>

definition searchsorted :: "real list \<Rightarrow> real \<Rightarrow> nat" where
  "searchsorted a v = length (takeWhile (\<lambda>x. x < v) a)"

definition mean :: "real list \<Rightarrow> real" where
  "mean xs = sum_list xs / real (length xs)"

definition std :: "real list \<Rightarrow> real" where
  "std xs = sqrt (mean (map (\<lambda>x. \<bar>x - mean xs\<bar>\<^sup>2) xs))"

definition logaddexp :: "real \<Rightarrow> real \<Rightarrow> real" where
  "logaddexp a b = ln (exp a + exp b)"

definition list_insert :: "nat \<Rightarrow> 'a \<Rightarrow> 'a list \<Rightarrow> 'a list" where
  "list_insert i x xs = take i xs @ x # drop i xs"

text \<open>A list comprehension whose body can raise: the first exception wins.\<close>

fun map_raising :: "('a \<Rightarrow> py_error + 'b) \<Rightarrow> 'a list \<Rightarrow> py_error + 'b list" where
  "map_raising g [] = Inr []"
| "map_raising g (x # xs) =
     (case g x of Inl e \<Rightarrow> Inl e | Inr y \<Rightarrow>
     (case map_raising g xs of Inl e \<Rightarrow> Inl e | Inr ys \<Rightarrow> Inr (y # ys)))"

subsection \<open>Bandwidth selection\<close>

definition simple_bandwidth_estimator :: "real list \<Rightarrow> real" where
  "simple_bandwidth_estimator s = 1.06 * std s / (real (length s) powr 0.2)"

definition log_kernel :: "real \<Rightarrow> real \<Rightarrow> real \<Rightarrow> real" where
  "log_kernel x c h = (let z = (x - c) / h in - 0.5 * z\<^sup>2 - ln h)"

text \<open>
  \<^verbatim>\<open>log_evaluation(points, samples, width)\<close>: \<^verbatim>\<open>reduce(logaddexp, ...)\<close> over one
  array per sample, that is, for each point a left fold over the samples that starts
  from the first one. \<^verbatim>\<open>reduce\<close> of an empty sequence raises TypeError.
\<close>

definition log_evaluation :: "real list \<Rightarrow> real list \<Rightarrow> real \<Rightarrow> py_error + real list" where
  "log_evaluation points samples width =
     (case samples of
        [] \<Rightarrow> Inl TypeError
      | s0 # rest \<Rightarrow>
          Inr (map (\<lambda>p. foldl logaddexp (log_kernel p s0 width)
                          (map (\<lambda>s. log_kernel p s width) rest)
                        - ln (real (length samples) * sqrt (2 * pi))) points))"

text \<open>\<^verbatim>\<open>cross_validation_logprob(samples, width, c = 0.99)\<close>\<close>

definition cross_validation_logprob :: "real list \<Rightarrow> real \<Rightarrow> real \<Rightarrow> py_error + real" where
  "cross_validation_logprob samples width c =
     (case log_evaluation samples samples width of
        Inl e \<Rightarrow> Inl e
      | Inr log_pdf \<Rightarrow>
          Inr (sum_list (map (\<lambda>lp.
                 let d = ln c - ln (width * real (length samples) * sqrt (2 * pi)) - lp;
                     loo_adjustment = ln (1 - exp d)
                 in lp + loo_adjustment) log_pdf)))"

text \<open>
  The leave-one-out objective as the specification writes it:
  \<open>\<Sum>\<^sub>i log [ 1 / ((n-1) \<surd>(2\<pi>) h) * \<Sum>\<^sub>j\<^sub>\<noteq>\<^sub>i exp (- ((s\<^sub>i - s\<^sub>j) / (\<surd>2 h))\<^sup>2) ]\<close>.
\<close>

definition loo_objective :: "real list \<Rightarrow> real \<Rightarrow> real" where
  "loo_objective s h =
     (\<Sum>i\<leftarrow>[0..<length s].
        ln (1 / ((real (length s) - 1) * sqrt (2 * pi) * h)
            * (\<Sum>j\<leftarrow>filter (\<lambda>j. j \<noteq> i) [0..<length s].
                 exp (- (((s ! i - s ! j) / (sqrt 2 * h))\<^sup>2)))))"

text \<open>For the proofs: the sum of the Gaussian kernels of all samples at a point.\<close>

definition kernel_sum :: "real list \<Rightarrow> real \<Rightarrow> real \<Rightarrow> real" where
  "kernel_sum samples h p = (\<Sum>s\<leftarrow>samples. exp (- (((p - s) / (sqrt 2 * h))\<^sup>2)))"

text \<open>
  The grid of \<^verbatim>\<open>cross_validation_bandwidth_estimator\<close>: five points spaced by
  \<open>dh\<close> around \<^verbatim>\<open>initial_h\<close>, each scored at \<open>exp\<close> of itself.
\<close>

definition initial_grid :: "real \<Rightarrow> real \<Rightarrow> real list" where
  "initial_grid initial_h dh = map (\<lambda>m. initial_h + m * dh) [- 2, - 1, 0, 1, 2]"

text \<open>
  \<^verbatim>\<open>for i in range(5)\<close>: stop when the maximum is inside the grid, else add a point
  below the first or above the last.
\<close>

fun extend_grid ::
  "nat \<Rightarrow> (real \<Rightarrow> py_error + real) \<Rightarrow> real \<Rightarrow> real list \<Rightarrow> real list
     \<Rightarrow> py_error + (real list \<times> real list)" where
  "extend_grid 0 score dh log_h log_p = Inr (log_h, log_p)"
| "extend_grid (Suc i) score dh log_h log_p =
     (case argmax log_p of Inl e \<Rightarrow> Inl e | Inr max_ind \<Rightarrow>
        if 0 < max_ind \<and> int max_ind < int (length log_h) - 1 then Inr (log_h, log_p)
        else if max_ind = 0 then
          (case getitem log_h 0 of Inl e \<Rightarrow> Inl e | Inr h_first \<Rightarrow>
             let new_h = h_first - dh in
             (case score new_h of Inl e \<Rightarrow> Inl e | Inr new_lp \<Rightarrow>
                extend_grid i score dh (list_insert 0 new_h log_h) (list_insert 0 new_lp log_p)))
        else
          (case getitem log_h (- 1) of Inl e \<Rightarrow> Inl e | Inr h_last \<Rightarrow>
             let new_h = h_last + dh in
             (case score new_h of Inl e \<Rightarrow> Inl e | Inr new_lp \<Rightarrow>
                extend_grid i score dh (log_h @ [new_h]) (log_p @ [new_lp]))))"

text \<open>\<^verbatim>\<open>for refine in range(6)\<close>: a midpoint on each side of the current best.\<close>

fun refine_grid ::
  "nat \<Rightarrow> (real \<Rightarrow> py_error + real) \<Rightarrow> real list \<Rightarrow> real list
     \<Rightarrow> py_error + (real list \<times> real list)" where
  "refine_grid 0 score log_h log_p = Inr (log_h, log_p)"
| "refine_grid (Suc r) score log_h log_p =
     (case argmax log_p of Inl e \<Rightarrow> Inl e | Inr max_ind \<Rightarrow>
     (case getitem log_h (int max_ind - 1) of Inl e \<Rightarrow> Inl e | Inr h_below \<Rightarrow>
     (case getitem log_h (int max_ind) of Inl e \<Rightarrow> Inl e | Inr h_best \<Rightarrow>
     (case getitem log_h (int max_ind + 1) of Inl e \<Rightarrow> Inl e | Inr h_above \<Rightarrow>
        let lwr_h = 0.5 * (h_below + h_best);
            upr_h = 0.5 * (h_best + h_above)
        in (case score lwr_h of Inl e \<Rightarrow> Inl e | Inr lwr_lp \<Rightarrow>
           (case score upr_h of Inl e \<Rightarrow> Inl e | Inr upr_lp \<Rightarrow>
              refine_grid r score
                (list_insert (max_ind + 2) upr_h (list_insert max_ind lwr_h log_h))
                (list_insert (max_ind + 2) upr_lp (list_insert max_ind lwr_lp log_p))))))))"

text \<open>
  \<^verbatim>\<open>cross_validation_bandwidth_estimator(initial_h)\<close>. The random permutation
  \<^verbatim>\<open>argsort(random(size=len(self.s)))\<close> of the sub-sampling is the parameter
  \<open>scrambler\<close>.
\<close>

definition cross_validation_bandwidth_estimator ::
  "real list \<Rightarrow> nat \<Rightarrow> nat list \<Rightarrow> real \<Rightarrow> py_error + real" where
  "cross_validation_bandwidth_estimator s max_cvs scrambler initial_h =
     (let samples = (if length s > max_cvs then take max_cvs (map (\<lambda>i. s ! i) scrambler) else s);
          score = (\<lambda>h. cross_validation_logprob samples (exp h) 0.99);
          dh = 0.5;
          log_h = initial_grid initial_h dh
      in case map_raising score log_h of Inl e \<Rightarrow> Inl e | Inr log_p \<Rightarrow>
         (case extend_grid 5 score dh log_h log_p of Inl e \<Rightarrow> Inl e | Inr (log_h1, log_p1) \<Rightarrow>
         (case refine_grid 6 score log_h1 log_p1 of Inl e \<Rightarrow> Inl e | Inr (log_h2, log_p2) \<Rightarrow>
         (case argmax log_p2 of Inl e \<Rightarrow> Inl e | Inr best \<Rightarrow>
         (case getitem log_h2 (int best) of Inl e \<Rightarrow> Inl e | Inr h_best \<Rightarrow>
            Inr (exp h_best))))))"

subsection \<open>Construction and evaluation\<close>

record GaussianKDE =
  kde_s :: "real list"
  kde_max_cvs :: nat
  kde_h :: real
  kde_norm :: real
  kde_cutoff :: real
  kde_q :: real
  kde_lwr_limit :: real
  kde_upr_limit :: real
  kde_slice_map :: "real \<rightharpoonup> nat \<times> nat"
  kde_tree :: BinaryTree

text \<open>
  \<^verbatim>\<open>n = int(log((s[-1] - s[0]) / h) / log(2)) + 1\<close>. Where the quotient is not
  positive numpy's logarithm is \<open>-inf\<close>, \<open>inf\<close> or \<open>nan\<close>, and \<^verbatim>\<open>int\<close> of it raises
  OverflowError or ValueError.
\<close>

definition region_layers :: "real \<Rightarrow> real \<Rightarrow> py_error + int" where
  "region_layers width h =
     (if h = 0 then
        (if width = 0 then Inl (ValueError ''cannot convert float NaN to integer'')
         else Inl OverflowError)
      else if width / h = 0 then Inl OverflowError
      else if width / h < 0 then Inl (ValueError ''cannot convert float NaN to integer'')
      else Inr (py_int (ln (width / h) / ln 2) + 1))"

text \<open>
  \<^verbatim>\<open>GaussianKDE.__init__\<close> up to the construction of the tree. The mode, found
  last by scipy's \<^verbatim>\<open>minimize_scalar\<close>, is not part of the model. A negative \<open>n\<close>
  makes \<^verbatim>\<open>2**n + 1\<close> a float, which \<^verbatim>\<open>linspace\<close> refuses.
\<close>

definition GaussianKDE_init ::
  "real list \<Rightarrow> real option \<Rightarrow> bool \<Rightarrow> nat \<Rightarrow> nat list \<Rightarrow> py_error + GaussianKDE" where
  "GaussianKDE_init sample bandwidth cross_validation max_cv_samples scrambler =
     (let s = sort sample in
      case (case bandwidth of
              None \<Rightarrow>
                (if cross_validation
                 then cross_validation_bandwidth_estimator s max_cv_samples scrambler
                        (simple_bandwidth_estimator s)
                 else Inr (simple_bandwidth_estimator s))
            | Some b \<Rightarrow> Inr b) of
        Inl e \<Rightarrow> Inl e
      | Inr h \<Rightarrow>
          let cutoff = h * 4 in
          (case getitem s 0 of Inl e \<Rightarrow> Inl e | Inr s_first \<Rightarrow>
          (case getitem s (- 1) of Inl e \<Rightarrow> Inl e | Inr s_last \<Rightarrow>
          (case region_layers (s_last - s_first) h of Inl e \<Rightarrow> Inl e | Inr n \<Rightarrow>
             if n < 0 then Inl TypeError
             else
               let mids = midpoints (linspace s_first s_last (2 ^ nat n + 1));
                   lwr_inds = map (\<lambda>m. searchsorted s (m - cutoff)) mids;
                   upr_inds = map (\<lambda>m. searchsorted s (m + cutoff)) mids;
                   slices = zip lwr_inds upr_inds
               in (case BinaryTree_init (nat n) (s_first, s_last) of Inl e \<Rightarrow> Inl e | Inr tree \<Rightarrow>
                     Inr \<lparr> kde_s = s, kde_max_cvs = max_cv_samples, kde_h = h,
                           kde_norm = 1 / (real (length s) * sqrt (2 * pi) * h),
                           kde_cutoff = cutoff,
                           kde_q = 1 / (sqrt 2 * h),
                           kde_lwr_limit = s_first - cutoff * 0.5,
                           kde_upr_limit = s_last + cutoff * 0.5,
                           kde_slice_map = Map.empty(mids [\<mapsto>] slices),
                           kde_tree = tree \<rparr>)))))"

text \<open>
  \<^verbatim>\<open>density(x)\<close>: the bucket of \<open>x\<close>, the slice stored under its midpoint, and the
  kernel sum over the samples of that slice.
\<close>

definition density :: "GaussianKDE \<Rightarrow> real \<Rightarrow> py_error + real" where
  "density self x =
     (case lookup (kde_tree self) x of Inl e \<Rightarrow> Inl e | Inr region \<Rightarrow>
     (case item2 region of Inl e \<Rightarrow> Inl e | Inr key \<Rightarrow>
     (case kde_slice_map self key of
        None \<Rightarrow> Inl KeyError
      | Some (l, u) \<Rightarrow>
          Inr (kde_norm self
               * sum_list (map (\<lambda>sj. exp (- (((x - sj) * kde_q self)\<^sup>2)))
                               (take (u - l) (drop l (kde_s self))))))))"

section \<open>Properties of \<^verbatim>\<open>sample_hdi\<close>\<close>

subsection \<open>Auxiliary facts\<close>

lemma py_int_fraction:
  assumes "0 < f" "f < 1" "0 < n"
  shows "0 \<le> py_int (f * real n)" and "py_int (f * real n) < int n"
proof -
  have nn: "0 \<le> f * real n" using assms by simp
  then show "0 \<le> py_int (f * real n)" by (simp add: py_int_def)
  have "f * real n < real n" using assms by simp
  then have "\<lfloor>f * real n\<rfloor> < int n" by (simp add: floor_less_iff)
  then show "py_int (f * real n) < int n" using nn by (simp add: py_int_def)
qed

lemma py_int_nonneg: "0 \<le> r \<Longrightarrow> py_int r = \<lfloor>r\<rfloor>"
  by (simp add: py_int_def)

lemma getitem_nat: "i < length xs \<Longrightarrow> getitem xs (int i) = Inr (xs ! i)"
  by (simp add: getitem_def)

lemma hdi_widths_nat:
  assumes "L \<le> length s"
  shows "hdi_widths s (int L) = map (\<lambda>j. s ! (j + L) - s ! j) [0..<length s - L]"
proof (rule nth_equalityI)
  show len: "length (hdi_widths s (int L)) = length (map (\<lambda>j. s ! (j + L) - s ! j) [0..<length s - L])"
    using assms by (simp add: hdi_widths_def slice_from_def slice_to_def slice_index_def)
  fix i assume "i < length (hdi_widths s (int L))"
  then have i: "i < length s - L" using len by simp
  then show "hdi_widths s (int L) ! i = map (\<lambda>j. s ! (j + L) - s ! j) [0..<length s - L] ! i"
    using assms by (simp add: hdi_widths_def slice_from_def slice_to_def slice_index_def add.commute)
qed

lemma argmin_least:
  assumes "ws \<noteq> []"
  obtains i where "argmin ws = Inr i" "i < length ws" "\<forall>j<length ws. ws ! i \<le> ws ! j"
    "\<forall>j<i. ws ! j \<noteq> ws ! i"
proof -
  obtain w rest where ws: "ws = w # rest" using assms by (cases ws) auto
  define m where "m = fold min rest w"
  define i where "i = length (takeWhile (\<lambda>x. x \<noteq> m) ws)"
  have m: "m = Min (set ws)" unfolding m_def ws by (rule Min.set_eq_fold[symmetric])
  then have mem: "m \<in> set ws" using assms Min_in[of "set ws"] by simp
  have le: "i \<le> length ws" unfolding i_def by (rule length_takeWhile_le)
  have "i \<noteq> length ws"
  proof
    assume "i = length ws"
    then have "takeWhile (\<lambda>x. x \<noteq> m) ws = ws"
      unfolding i_def using takeWhile_eq_take[of "\<lambda>x. x \<noteq> m" ws] by simp
    then have "\<forall>x\<in>set ws. x \<noteq> m" by simp
    then show False using mem by blast
  qed
  then have il: "i < length ws" using le by simp
  then have wi: "ws ! i = m" unfolding i_def using nth_length_takeWhile by blast
  have "\<forall>j<length ws. ws ! i \<le> ws ! j"
  proof (intro allI impI)
    fix j assume "j < length ws"
    then have "ws ! j \<in> set ws" by (rule nth_mem)
    then show "ws ! i \<le> ws ! j" unfolding wi m by (intro Min_le) auto
  qed
  moreover have "\<forall>j<i. ws ! j \<noteq> ws ! i"
  proof (intro allI impI)
    fix j assume j: "j < i"
    then have "takeWhile (\<lambda>x. x \<noteq> m) ws ! j = ws ! j"
      unfolding i_def by (rule takeWhile_nth)
    moreover have "takeWhile (\<lambda>x. x \<noteq> m) ws ! j \<in> set (takeWhile (\<lambda>x. x \<noteq> m) ws)"
      using j unfolding i_def by (rule nth_mem)
    ultimately show "ws ! j \<noteq> ws ! i" using wi set_takeWhileD by fastforce
  qed
  moreover have "argmin ws = Inr i" by (simp add: argmin_def ws i_def m_def)
  ultimately show ?thesis using that il by blast
qed


lemma sort_eq_Nil_iff: "sort xs = [] \<longleftrightarrow> xs = []"
  using length_sort[of "\<lambda>x. x" xs] by (metis length_0_conv)

lemma dbl_interval_length_init_ok:
  assumes "sample \<noteq> []"
  shows "dbl_interval_length_init sample f =
     Inr \<lparr> dil_sample = sort sample, dil_f = f, dil_N = length sample,
           dil_L = py_int (f * real (length sample)),
           dil_space = int (length sample) - py_int (f * real (length sample)),
           dil_max_length = sort sample ! (length sample - 1) - sort sample ! 0 \<rparr>"
proof -
  have n: "0 < length sample" using assms by simp
  have g0: "getitem (sort sample) 0 = Inr (sort sample ! 0)"
    using n by (simp add: getitem_def)
  have "nat (int (length sample) + - 1) = length sample - 1" using n by linarith
  then have g1: "getitem (sort sample) (- 1) = Inr (sort sample ! (length sample - 1))"
    using n by (simp add: getitem_def Suc_le_eq)
  show ?thesis
    unfolding dbl_interval_length_init_def Let_def g0 g1 by simp
qed

lemma sample_hdi_valid:
  fixes sample :: "real list" and f :: real
  assumes "0 < f" "f < 1" "2 \<le> length sample"
  defines "s \<equiv> sort sample" and "n \<equiv> length sample"
    and "L \<equiv> nat \<lfloor>f * real (length sample)\<rfloor>"
  shows "\<exists>i. i + L < n
    \<and> argmin (hdi_widths s (int L)) = Inr i
    \<and> (\<forall>j. j + L < n \<longrightarrow> s ! (i + L) - s ! i \<le> s ! (j + L) - s ! j)
    \<and> (\<forall>de fs. sample_hdi de sample f fs =
       (let warned = (if int n - int L < 20 then [SmallRemainder] else []);
            r1 = (s ! i, s ! (i + L)) in
        if fs then Inr (warned, Single r1)
        else (case dbl_interval_length_init sample f of Inl e \<Rightarrow> Inl e | Inr minfunc \<Rightarrow>
          (case return_intervals minfunc (de (dbl_call minfunc) (get_bounds minfunc)) of
             Inl e \<Rightarrow> Inl e
           | Inr (I1, I2) \<Rightarrow>
               if (snd I2 - fst I2) + (snd I1 - fst I1) < (s ! (i + L) - s ! i) * 0.99
               then Inr (warned, Double I1 I2) else Inr (warned, Single r1)))))"
proof -
  have n0: "0 < n" using assms(3) unfolding n_def by linarith
  have ls: "length s = n" by (simp add: s_def n_def)
  have nn: "0 \<le> f * real n" using assms(1) by simp
  have pL: "py_int (f * real n) = int L"
    using nn by (simp add: py_int_def L_def n_def)
  have Ln: "L < n" using py_int_fraction(2)[OF assms(1,2) n0] pL by simp
  have w: "hdi_widths s (int L) = map (\<lambda>j. s ! (j + L) - s ! j) [0..<n - L]"
    using hdi_widths_nat[of L s] Ln ls by simp
  then have wne: "hdi_widths s (int L) \<noteq> []" using Ln by simp
  obtain i where i: "argmin (hdi_widths s (int L)) = Inr i"
    "i < length (hdi_widths s (int L))"
    "\<forall>j<length (hdi_widths s (int L)). hdi_widths s (int L) ! i \<le> hdi_widths s (int L) ! j"
    using argmin_least[OF wne] by blast
  have iL: "i + L < n" using i(2) w by simp
  have min: "\<forall>j. j + L < n \<longrightarrow> s ! (i + L) - s ! i \<le> s ! (j + L) - s ! j"
  proof (intro allI impI)
    fix j assume "j + L < n"
    then have j: "j < length (hdi_widths s (int L))" using w by simp
    then have "hdi_widths s (int L) ! i \<le> hdi_widths s (int L) ! j" using i(3) by blast
    then show "s ! (i + L) - s ! i \<le> s ! (j + L) - s ! j"
      using j i(2) unfolding w by simp
  qed
  have g1: "getitem s (int i) = Inr (s ! i)" using iL ls by (simp add: getitem_nat)
  have g2: "getitem s (int i + int L) = Inr (s ! (i + L))"
    using getitem_nat[of "i + L" s] iL ls by simp
  have nL: "\<not> int n \<le> int L" using Ln by simp
  have v: "\<not> \<not> (0 < f \<and> f < 1)" "\<not> length sample < 2" using assms(1-3) by simp_all
  have "sample_hdi de sample f fs =
       (let warned = (if int n - int L < 20 then [SmallRemainder] else []);
            r1 = (s ! i, s ! (i + L)) in
        if fs then Inr (warned, Single r1)
        else (case dbl_interval_length_init sample f of Inl e \<Rightarrow> Inl e | Inr minfunc \<Rightarrow>
          (case return_intervals minfunc (de (dbl_call minfunc) (get_bounds minfunc)) of
             Inl e \<Rightarrow> Inl e
           | Inr (I1, I2) \<Rightarrow>
               if (snd I2 - fst I2) + (snd I1 - fst I1) < (s ! (i + L) - s ! i) * 0.99
               then Inr (warned, Double I1 I2) else Inr (warned, Single r1))))" for de fs
    unfolding sample_hdi_def Let_def if_not_P[OF v(1)] if_not_P[OF v(2)]
      s_def[symmetric] ls pL if_not_P[OF nL] i(1) sum.case g1 g2
    by (simp add: Let_def split: sum.splits)
  then have "\<forall>de fs. sample_hdi de sample f fs =
       (let warned = (if int n - int L < 20 then [SmallRemainder] else []);
            r1 = (s ! i, s ! (i + L)) in
        if fs then Inr (warned, Single r1)
        else (case dbl_interval_length_init sample f of Inl e \<Rightarrow> Inl e | Inr minfunc \<Rightarrow>
          (case return_intervals minfunc (de (dbl_call minfunc) (get_bounds minfunc)) of
             Inl e \<Rightarrow> Inl e
           | Inr (I1, I2) \<Rightarrow>
               if (snd I2 - fst I2) + (snd I1 - fst I1) < (s ! (i + L) - s ! i) * 0.99
               then Inr (warned, Double I1 I2) else Inr (warned, Single r1))))"
    by (intro allI)
  with iL i(1) min show ?thesis by (intro exI[of _ i] conjI) assumption+
qed

lemma count_window_sorted:
  fixes s :: "real list"
  assumes "sorted s" "i + L < length s"
  shows "L + 1 \<le> length (filter (\<lambda>x. s ! i \<le> x \<and> x \<le> s ! (i + L)) s)"
proof -
  let ?P = "\<lambda>x. s ! i \<le> x \<and> x \<le> s ! (i + L)"
  let ?I = "{k. k < length s \<and> ?P (s ! k)}"
  have "{i..i + L} \<subseteq> ?I"
  proof
    fix k assume "k \<in> {i..i + L}"
    then have k: "i \<le> k" "k \<le> i + L" by simp_all
    then have "k < length s" using assms(2) by simp
    moreover have "s ! i \<le> s ! k" using assms(1) k(1) \<open>k < length s\<close> by (simp add: sorted_nth_mono)
    moreover have "s ! k \<le> s ! (i + L)" using assms k(2) by (simp add: sorted_nth_mono)
    ultimately show "k \<in> ?I" by simp
  qed
  moreover have "finite ?I" by simp
  ultimately have "card {i..i + L} \<le> card ?I" by (rule card_mono[rotated])
  then show ?thesis by (simp add: length_filter_conv_card)
qed

lemma window_in_interval_sorted:
  fixes s :: "real list"
  assumes "sorted s" "L + 1 \<le> length (filter (\<lambda>x. a \<le> x \<and> x \<le> b) s)"
  obtains j where "j + L < length s" "a \<le> s ! j" "s ! (j + L) \<le> b"
proof -
  let ?I = "{k. k < length s \<and> a \<le> s ! k \<and> s ! k \<le> b}"
  have fin: "finite ?I" by simp
  have c: "L + 1 \<le> card ?I" using assms(2) by (simp add: length_filter_conv_card)
  have ne: "?I \<noteq> {}"
  proof
    assume "?I = {}"
    then have "card ?I = 0" by (simp only: card.empty)
    then show False using c by linarith
  qed
  define j where "j = Min ?I"
  define k where "k = Max ?I"
  have jI: "j \<in> ?I" unfolding j_def using fin ne by (rule Min_in)
  have kI: "k \<in> ?I" unfolding k_def using fin ne by (rule Max_in)
  have "?I \<subseteq> {j..k}"
  proof
    fix x assume x: "x \<in> ?I"
    have "j \<le> x" unfolding j_def using fin x by (rule Min_le)
    moreover have "x \<le> k" unfolding k_def using fin x by (rule Max_ge)
    ultimately show "x \<in> {j..k}" by simp
  qed
  then have "card ?I \<le> card {j..k}" by (intro card_mono) auto
  then have "L + 1 \<le> k + 1 - j" using c by simp
  then have jk: "j + L \<le> k" by linarith
  have kl: "k < length s" using kI by simp
  have "s ! (j + L) \<le> s ! k" using assms(1) jk kl by (simp add: sorted_nth_mono)
  then have "s ! (j + L) \<le> b" using kI by simp
  moreover have "a \<le> s ! j" using jI by simp
  moreover have "j + L < length s" using jk kl by simp
  ultimately show ?thesis using that by blast
qed

lemma length_filter_sort:
  "length (filter P (sort xs)) = length (filter P (xs :: real list))"
  by (simp add: filter_sort)

lemma py_int_unit_mult:
  assumes "0 \<le> f1" "f1 \<le> 1" "0 \<le> L"
  shows "0 \<le> py_int (f1 * real_of_int L)" "py_int (f1 * real_of_int L) \<le> L"
proof -
  have nn: "0 \<le> f1 * real_of_int L" using assms by simp
  then show "0 \<le> py_int (f1 * real_of_int L)" by (simp add: py_int_def)
  have "f1 * real_of_int L \<le> real_of_int L" using assms by (simp add: mult_left_le_one_le)
  then have "\<lfloor>f1 * real_of_int L\<rfloor> \<le> L" by (simp add: floor_le_iff)
  then show "py_int (f1 * real_of_int L) \<le> L" using nn by (simp add: py_int_def)
qed

lemma getitem_int: "0 \<le> i \<Longrightarrow> i < int (length xs) \<Longrightarrow> getitem xs i = Inr (xs ! nat i)"
  by (simp add: getitem_def)

lemma return_intervals_in_region:
  assumes "in_search_region d paras" "0 \<le> dil_L d"
    "dil_space d = int (length (dil_sample d)) - dil_L d"
  shows "\<exists>r. return_intervals d paras = Inr r"
proof -
  obtain f1 p1 p2 where p: "paras = (f1, p1, p2)" by (cases paras) auto
  have r: "0 \<le> f1" "f1 \<le> 1" "0 \<le> p1" "0 \<le> p2" "py_int p1 + py_int p2 \<le> dil_space d - 1"
    using assms(1) by (simp_all add: in_search_region_def p)
  define w1 where "w1 = py_int (f1 * real_of_int (dil_L d))"
  have w: "0 \<le> w1" "w1 \<le> dil_L d" unfolding w1_def using py_int_unit_mult[OF r(1,2) assms(2)] by simp_all
  have s: "0 \<le> py_int p1" "0 \<le> py_int p2" using r(3,4) by (simp_all add: py_int_def)
  have b: "py_int p1 + py_int p2 + dil_L d < int (length (dil_sample d))" using r(5) assms(3) by simp
  have g1: "getitem (dil_sample d) (py_int p1) = Inr (dil_sample d ! nat (py_int p1))"
    using s w b by (intro getitem_int) linarith+
  have g2: "getitem (dil_sample d) (py_int p1 + w1) = Inr (dil_sample d ! nat (py_int p1 + w1))"
    using s w b by (intro getitem_int) linarith+
  have g3: "getitem (dil_sample d) (py_int p1 + w1 + py_int p2) = Inr (dil_sample d ! nat (py_int p1 + w1 + py_int p2))"
    using s w b by (intro getitem_int) linarith+
  have g4: "getitem (dil_sample d) (py_int p1 + w1 + py_int p2 + (dil_L d - w1)) = Inr (dil_sample d ! nat (py_int p1 + w1 + py_int p2 + (dil_L d - w1)))"
    using s w b by (intro getitem_int) linarith+
  show ?thesis
    unfolding return_intervals_def p prod.case Let_def w1_def[symmetric] g1 g2 g3 g4 sum.case
    by simp
qed

subsection \<open>The single-interval solution\<close>

text \<open>
  Claim C1, as amended. For a sample of length \<open>n \<ge> 2\<close> and \<open>0 < fraction < 1\<close>,
  with \<open>s\<close> the sorted sample and \<open>L = \<lfloor>fraction * n\<rfloor>\<close>, the single interval that
  \<^verbatim>\<open>sample_hdi\<close> computes is \<open>(s[i], s[i+L])\<close> for a start index \<open>i\<close> that minimises
  \<open>s[j+L] - s[j]\<close> over all valid start indices \<open>j\<close>. The interval contains at least
  \<open>L + 1\<close> sample points, and no interval that contains at least \<open>L + 1\<close> sample points
  is narrower.
\<close>

theorem sample_hdi_single_interval:
  fixes sample :: "real list" and fraction :: real
  assumes "0 < fraction" "fraction < 1" "2 \<le> length sample"
  defines "s \<equiv> sort sample" and "L \<equiv> nat \<lfloor>fraction * real (length sample)\<rfloor>"
  shows "\<exists>ws i. sample_hdi de sample fraction True = Inr (ws, Single (s ! i, s ! (i + L)))
      \<and> i + L < length sample
      \<and> (\<forall>j. j + L < length sample \<longrightarrow> s ! (i + L) - s ! i \<le> s ! (j + L) - s ! j)
      \<and> L + 1 \<le> length (filter (\<lambda>x. s ! i \<le> x \<and> x \<le> s ! (i + L)) sample)
      \<and> (\<forall>a b. L + 1 \<le> length (filter (\<lambda>x. a \<le> x \<and> x \<le> b) sample)
             \<longrightarrow> s ! (i + L) - s ! i \<le> b - a)"
proof -
  from sample_hdi_valid[OF assms(1-3), folded s_def L_def]
  obtain i where all: "i + L < length sample
    \<and> argmin (hdi_widths s (int L)) = Inr i
    \<and> (\<forall>j. j + L < length sample \<longrightarrow> s ! (i + L) - s ! i \<le> s ! (j + L) - s ! j)
    \<and> (\<forall>de fs. sample_hdi de sample fraction fs =
       (let warned = (if int (length sample) - int L < 20 then [SmallRemainder] else []);
            r1 = (s ! i, s ! (i + L)) in
        if fs then Inr (warned, Single r1)
        else (case dbl_interval_length_init sample fraction of Inl e \<Rightarrow> Inl e | Inr minfunc \<Rightarrow>
          (case return_intervals minfunc (de (dbl_call minfunc) (get_bounds minfunc)) of
             Inl e \<Rightarrow> Inl e
           | Inr (I1, I2) \<Rightarrow>
               if (snd I2 - fst I2) + (snd I1 - fst I1) < (s ! (i + L) - s ! i) * 0.99
               then Inr (warned, Double I1 I2) else Inr (warned, Single r1)))))" ..
  from all have i: "i + L < length sample" by (rule conjunct1)
  from all have m: "\<forall>j. j + L < length sample \<longrightarrow> s ! (i + L) - s ! i \<le> s ! (j + L) - s ! j"
    by (elim conjE)
  from all have r: "sample_hdi de sample fraction True =
      Inr (if int (length sample) - int L < 20 then [SmallRemainder] else [], Single (s ! i, s ! (i + L)))"
    by (elim conjE) (simp add: Let_def)
  have srt: "sorted s" and len: "length s = length sample" by (simp_all add: s_def)
  have c: "L + 1 \<le> length (filter (\<lambda>x. s ! i \<le> x \<and> x \<le> s ! (i + L)) sample)"
    using count_window_sorted[OF srt, of i L] i len
    unfolding s_def length_filter_sort by simp
  have best: "s ! (i + L) - s ! i \<le> b - a"
    if h: "L + 1 \<le> length (filter (\<lambda>x. a \<le> x \<and> x \<le> b) sample)" for a b
  proof -
    have "L + 1 \<le> length (filter (\<lambda>x. a \<le> x \<and> x \<le> b) s)"
      using h unfolding s_def length_filter_sort .
    then obtain j where j: "j + L < length s" "a \<le> s ! j" "s ! (j + L) \<le> b"
      using window_in_interval_sorted[OF srt] by blast
    then have "s ! (i + L) - s ! i \<le> s ! (j + L) - s ! j" using m len by simp
    then show ?thesis using j(2,3) by linarith
  qed
  show ?thesis
    by (intro exI[of _ "if int (length sample) - int L < 20 then [SmallRemainder] else []"]
        exI[of _ i] conjI allI impI r i m[rule_format] c best)
qed

text \<open>
  Claim C1 as stated asks for the narrowest single interval among those that contain
  at least \<open>\<lfloor>fraction * n\<rfloor>\<close> sample points. For the sample \<open>[0, 1, 2, 3]\<close> and the
  fraction \<open>1/2\<close> the function returns \<open>(0, 2)\<close>, of width 2, while \<open>[0, 1]\<close> holds
  \<open>2 = \<lfloor>4/2\<rfloor>\<close> sample points and has width 1: the window of the code spans
  \<open>L + 1\<close> order statistics, not \<open>L\<close>.
\<close>

theorem sample_hdi_not_minimal_counterexample:
  "sample_hdi (\<lambda>_ _. (0, 0, 0)) [0, 1, 2, 3] (1 / 2) True
      = Inr ([SmallRemainder], Single (0, 2))
   \<and> \<not> (\<forall>a b. nat \<lfloor>(1 / 2) * real (length [0, 1, 2, 3 :: real])\<rfloor>
              \<le> length (filter (\<lambda>x. a \<le> x \<and> x \<le> b) [0, 1, 2, 3 :: real])
            \<longrightarrow> (2 :: real) - 0 \<le> b - a)"
proof -
  have r: "sample_hdi (\<lambda>_ _. (0, 0, 0)) [0, 1, 2, 3] (1 / 2) True
      = Inr ([SmallRemainder], Single (0, 2))"
    by (simp add: sample_hdi_def py_int_def hdi_widths_def slice_from_def slice_to_def
      slice_index_def argmin_def getitem_def Let_def)
  have "nat \<lfloor>(1 / 2) * real (length [0, 1, 2, 3 :: real])\<rfloor>
              \<le> length (filter (\<lambda>x. 0 \<le> x \<and> x \<le> 1) [0, 1, 2, 3 :: real])
         \<and> \<not> ((2 :: real) - 0 \<le> 1 - 0)"
    by simp
  then have "\<not> (\<forall>a b. nat \<lfloor>(1 / 2) * real (length [0, 1, 2, 3 :: real])\<rfloor>
              \<le> length (filter (\<lambda>x. a \<le> x \<and> x \<le> b) [0, 1, 2, 3 :: real])
            \<longrightarrow> (2 :: real) - 0 \<le> b - a)"
    by blast
  with r show ?thesis by (rule conjI)
qed

text \<open>The theorem of claim C1 at the sample \<open>[0, 1, 2, 3]\<close> and the fraction \<open>1/2\<close>.\<close>

theorem sample_hdi_single_interval_witness:
  "(0 :: real) < 1 / 2 \<and> (1 / 2 :: real) < 1 \<and> 2 \<le> length [0, 1, 2, 3 :: real]
   \<and> (\<exists>ws i. sample_hdi (\<lambda>_ _. (0, 0, 0)) [0, 1, 2, 3] (1 / 2) True
          = Inr (ws, Single (sort [0, 1, 2, 3] ! i,
                 sort [0, 1, 2, 3] ! (i + nat \<lfloor>1 / 2 * real (length [0, 1, 2, 3 :: real])\<rfloor>)))
      \<and> i + nat \<lfloor>1 / 2 * real (length [0, 1, 2, 3 :: real])\<rfloor> < length [0, 1, 2, 3 :: real]
      \<and> (\<forall>j. j + nat \<lfloor>1 / 2 * real (length [0, 1, 2, 3 :: real])\<rfloor> < length [0, 1, 2, 3 :: real]
             \<longrightarrow> sort [0, 1, 2, 3] ! (i + nat \<lfloor>1 / 2 * real (length [0, 1, 2, 3 :: real])\<rfloor>)
                   - sort [0, 1, 2, 3] ! i
                 \<le> sort [0, 1, 2, 3] ! (j + nat \<lfloor>1 / 2 * real (length [0, 1, 2, 3 :: real])\<rfloor>)
                   - sort [0, 1, 2, 3 :: real] ! j)
      \<and> nat \<lfloor>1 / 2 * real (length [0, 1, 2, 3 :: real])\<rfloor> + 1
          \<le> length (filter (\<lambda>x. sort [0, 1, 2, 3] ! i \<le> x
                \<and> x \<le> sort [0, 1, 2, 3] ! (i + nat \<lfloor>1 / 2 * real (length [0, 1, 2, 3 :: real])\<rfloor>))
              [0, 1, 2, 3 :: real])
      \<and> (\<forall>a b. nat \<lfloor>1 / 2 * real (length [0, 1, 2, 3 :: real])\<rfloor> + 1
                 \<le> length (filter (\<lambda>x. a \<le> x \<and> x \<le> b) [0, 1, 2, 3 :: real])
             \<longrightarrow> sort [0, 1, 2, 3] ! (i + nat \<lfloor>1 / 2 * real (length [0, 1, 2, 3 :: real])\<rfloor>)
                   - sort [0, 1, 2, 3 :: real] ! i \<le> b - a))"
proof -
  have h: "(0 :: real) < 1 / 2" "(1 / 2 :: real) < 1" "2 \<le> length [0, 1, 2, 3 :: real]"
    by simp_all
  show ?thesis
    by (intro conjI h sample_hdi_single_interval[OF h])
qed

subsection \<open>Validated input always reaches the minimisation\<close>

text \<open>
  Claim C10. For \<open>0 < fraction < 1\<close> and a sample of length \<open>n \<ge> 2\<close>,
  \<open>L = int(fraction * n)\<close> satisfies \<open>0 \<le> L < n\<close>. Hence the array of widths is not
  empty, \<^verbatim>\<open>argmin\<close> returns an index \<open>i\<close> with \<open>i + L < n\<close> (the reads \<open>s[i]\<close> and
  \<open>s[i+L]\<close> are in range), and no result of \<^verbatim>\<open>sample_hdi\<close> carries the warning of
  the branch \<open>n \<le> L\<close>: that branch is unreachable.
\<close>

theorem sample_hdi_validated_reaches_minimisation:
  fixes sample :: "real list" and fraction :: real
  assumes "0 < fraction" "fraction < 1" "2 \<le> length sample"
  shows "0 \<le> py_int (fraction * real (length sample))
    \<and> py_int (fraction * real (length sample)) < int (length sample)
    \<and> hdi_widths (sort sample) (py_int (fraction * real (length sample))) \<noteq> []
    \<and> (\<exists>i. argmin (hdi_widths (sort sample) (py_int (fraction * real (length sample)))) = Inr i
           \<and> int i + py_int (fraction * real (length sample)) < int (length sample))
    \<and> (\<exists>ws r. sample_hdi de sample fraction True = Inr (ws, Single r)
           \<and> InsufficientSamples \<notin> set ws)
    \<and> (\<forall>ws r. sample_hdi de sample fraction force_single = Inr (ws, r)
           \<longrightarrow> InsufficientSamples \<notin> set ws)"
proof -
  define L where "L = nat \<lfloor>fraction * real (length sample)\<rfloor>"
  define s where "s = sort sample"
  have n0: "0 < length sample" using assms(3) by linarith
  have nn: "0 \<le> fraction * real (length sample)" using assms(1) by simp
  have pL: "py_int (fraction * real (length sample)) = int L"
    using nn by (simp add: py_int_def L_def)
  have b: "0 \<le> py_int (fraction * real (length sample))"
    "py_int (fraction * real (length sample)) < int (length sample)"
    using py_int_fraction[OF assms(1,2) n0] by simp_all
  from sample_hdi_valid[OF assms(1-3), folded s_def L_def]
  obtain i where all: "i + L < length sample
    \<and> argmin (hdi_widths s (int L)) = Inr i
    \<and> (\<forall>j. j + L < length sample \<longrightarrow> s ! (i + L) - s ! i \<le> s ! (j + L) - s ! j)
    \<and> (\<forall>de fs. sample_hdi de sample fraction fs =
       (let warned = (if int (length sample) - int L < 20 then [SmallRemainder] else []);
            r1 = (s ! i, s ! (i + L)) in
        if fs then Inr (warned, Single r1)
        else (case dbl_interval_length_init sample fraction of Inl e \<Rightarrow> Inl e | Inr minfunc \<Rightarrow>
          (case return_intervals minfunc (de (dbl_call minfunc) (get_bounds minfunc)) of
             Inl e \<Rightarrow> Inl e
           | Inr (I1, I2) \<Rightarrow>
               if (snd I2 - fst I2) + (snd I1 - fst I1) < (s ! (i + L) - s ! i) * 0.99
               then Inr (warned, Double I1 I2) else Inr (warned, Single r1)))))" ..
  from all have i: "i + L < length sample" by (rule conjunct1)
  from all have a: "argmin (hdi_widths s (int L)) = Inr i" by (elim conjE)
  from all have r: "sample_hdi de sample fraction fs =
       (let warned = (if int (length sample) - int L < 20 then [SmallRemainder] else []);
            r1 = (s ! i, s ! (i + L)) in
        if fs then Inr (warned, Single r1)
        else (case dbl_interval_length_init sample fraction of Inl e \<Rightarrow> Inl e | Inr minfunc \<Rightarrow>
          (case return_intervals minfunc (de (dbl_call minfunc) (get_bounds minfunc)) of
             Inl e \<Rightarrow> Inl e
           | Inr (I1, I2) \<Rightarrow>
               if (snd I2 - fst I2) + (snd I1 - fst I1) < (s ! (i + L) - s ! i) * 0.99
               then Inr (warned, Double I1 I2) else Inr (warned, Single r1))))" for fs
    by (elim conjE) blast
  have ne: "hdi_widths s (int L) \<noteq> []" using a by (auto simp: argmin_def)
  have c4: "\<exists>i. argmin (hdi_widths s (int L)) = Inr i \<and> int i + int L < int (length sample)"
    using a i by (intro exI[of _ i]) simp
  have c5: "\<exists>ws r. sample_hdi de sample fraction True = Inr (ws, Single r)
           \<and> InsufficientSamples \<notin> set ws"
    by (intro exI[of _ "if int (length sample) - int L < 20 then [SmallRemainder] else []"]
        exI[of _ "(s ! i, s ! (i + L))"]) (simp add: r Let_def)
  have c6: "\<forall>ws r. sample_hdi de sample fraction force_single = Inr (ws, r)
           \<longrightarrow> InsufficientSamples \<notin> set ws"
    unfolding r Let_def by (auto split: if_splits sum.splits prod.splits)
  show ?thesis
    unfolding pL s_def[symmetric]
    using b[unfolded pL] ne c4 c5 c6 by (intro conjI)
qed

lemma dbl_init_fields:
  assumes "dbl_interval_length_init sample f = Inr d" "0 < f" "sample \<noteq> []"
  shows "0 \<le> dil_L d" "dil_space d = int (length (dil_sample d)) - dil_L d"
proof -
  have d: "d = \<lparr> dil_sample = sort sample, dil_f = f, dil_N = length sample,
           dil_L = py_int (f * real (length sample)),
           dil_space = int (length sample) - py_int (f * real (length sample)),
           dil_max_length = sort sample ! (length sample - 1) - sort sample ! 0 \<rparr>"
    using assms(1) unfolding dbl_interval_length_init_ok[OF assms(3)] by simp
  have "0 \<le> f * real (length sample)" using assms(2) by simp
  then show "0 \<le> dil_L d" unfolding d by (simp add: py_int_def)
  show "dil_space d = int (length (dil_sample d)) - dil_L d" unfolding d by simp
qed

subsection \<open>Errors\<close>

text \<open>
  The two ValueErrors of the validation. \<^verbatim>\<open>sample_hdi\<close> raises the first exactly when
  the fraction is not strictly between 0 and 1 (whatever the sample is: this check comes
  first), the second exactly when the fraction is valid and the sample has fewer than
  two elements, and a ValueError only in these two cases. With \<open>force_single\<close>, or when
  the optimiser returns a point of its search region, there is no other error.
\<close>

lemma sample_hdi_value_error_iff_invalid:
  fixes sample :: "real list" and fraction :: real
  shows "(sample_hdi de sample fraction fs
            = Inl (ValueError ''fraction parameter must be between 0 and 1'')
          \<longleftrightarrow> \<not> (0 < fraction \<and> fraction < 1))
     \<and> (sample_hdi de sample fraction fs
            = Inl (ValueError ''The sample must have at least 2 elements'')
          \<longleftrightarrow> (0 < fraction \<and> fraction < 1) \<and> length sample < 2)
     \<and> ((\<exists>m. sample_hdi de sample fraction fs = Inl (ValueError m))
          \<longleftrightarrow> \<not> (0 < fraction \<and> fraction < 1) \<or> length sample < 2)
     \<and> ((fs \<or> (\<forall>d. dbl_interval_length_init sample fraction = Inr d
                \<longrightarrow> in_search_region d (de (dbl_call d) (get_bounds d))))
          \<longrightarrow> ((\<exists>e. sample_hdi de sample fraction fs = Inl e)
                \<longleftrightarrow> \<not> (0 < fraction \<and> fraction < 1) \<or> length sample < 2))"
proof (cases "0 < fraction \<and> fraction < 1 \<and> 2 \<le> length sample")
  case False
  then show ?thesis by (auto simp: sample_hdi_def)
next
  case True
  then have v: "0 < fraction" "fraction < 1" "2 \<le> length sample" by simp_all
  define L where "L = nat \<lfloor>fraction * real (length sample)\<rfloor>"
  define s where "s = sort sample"
  from sample_hdi_valid[OF v, folded s_def L_def]
  obtain i where all: "i + L < length sample
    \<and> argmin (hdi_widths s (int L)) = Inr i
    \<and> (\<forall>j. j + L < length sample \<longrightarrow> s ! (i + L) - s ! i \<le> s ! (j + L) - s ! j)
    \<and> (\<forall>de fs. sample_hdi de sample fraction fs =
       (let warned = (if int (length sample) - int L < 20 then [SmallRemainder] else []);
            r1 = (s ! i, s ! (i + L)) in
        if fs then Inr (warned, Single r1)
        else (case dbl_interval_length_init sample fraction of Inl e \<Rightarrow> Inl e | Inr minfunc \<Rightarrow>
          (case return_intervals minfunc (de (dbl_call minfunc) (get_bounds minfunc)) of
             Inl e \<Rightarrow> Inl e
           | Inr (I1, I2) \<Rightarrow>
               if (snd I2 - fst I2) + (snd I1 - fst I1) < (s ! (i + L) - s ! i) * 0.99
               then Inr (warned, Double I1 I2) else Inr (warned, Single r1)))))" ..
  from all have r: "sample_hdi de sample fraction fs =
       (let warned = (if int (length sample) - int L < 20 then [SmallRemainder] else []);
            r1 = (s ! i, s ! (i + L)) in
        if fs then Inr (warned, Single r1)
        else (case dbl_interval_length_init sample fraction of Inl e \<Rightarrow> Inl e | Inr minfunc \<Rightarrow>
          (case return_intervals minfunc (de (dbl_call minfunc) (get_bounds minfunc)) of
             Inl e \<Rightarrow> Inl e
           | Inr (I1, I2) \<Rightarrow>
               if (snd I2 - fst I2) + (snd I1 - fst I1) < (s ! (i + L) - s ! i) * 0.99
               then Inr (warned, Double I1 I2) else Inr (warned, Single r1))))"
    by (elim conjE) blast
  have ne: "sample \<noteq> []" using v(3) by auto
  obtain d where d: "dbl_interval_length_init sample fraction = Inr d"
    using dbl_interval_length_init_ok[OF ne] by blast
  have ri: "return_intervals d p = Inl e \<Longrightarrow> e = IndexError" for p e
    by (auto simp: return_intervals_def getitem_def Let_def split: prod.splits sum.splits if_splits)
  have noval: "sample_hdi de sample fraction fs \<noteq> Inl (ValueError m)" for m
  proof
    assume a: "sample_hdi de sample fraction fs = Inl (ValueError m)"
    then have "return_intervals d (de (dbl_call d) (get_bounds d)) = Inl (ValueError m)"
      unfolding r d Let_def by (auto split: sum.splits prod.splits if_splits)
    then have "ValueError m = IndexError" by (rule ri)
    then show False by simp
  qed
  have ok: "\<exists>res. sample_hdi de sample fraction fs = Inr res"
    if h: "fs \<or> (\<forall>d. dbl_interval_length_init sample fraction = Inr d
                \<longrightarrow> in_search_region d (de (dbl_call d) (get_bounds d)))"
  proof (cases fs)
    case True
    then show ?thesis unfolding r Let_def by simp
  next
    case False
    then have "in_search_region d (de (dbl_call d) (get_bounds d))" using h d by blast
    then obtain I where "return_intervals d (de (dbl_call d) (get_bounds d)) = Inr I"
      using return_intervals_in_region dbl_init_fields[OF d v(1) ne] by blast
    then show ?thesis unfolding r d Let_def using False by (cases I) simp
  qed
  have c4: "(fs \<or> (\<forall>d. dbl_interval_length_init sample fraction = Inr d
                \<longrightarrow> in_search_region d (de (dbl_call d) (get_bounds d))))
          \<longrightarrow> ((\<exists>e. sample_hdi de sample fraction fs = Inl e)
                \<longleftrightarrow> \<not> (0 < fraction \<and> fraction < 1) \<or> length sample < 2)"
    using ok v by auto
  show ?thesis using noval v c4 by (intro conjI) auto
qed

text \<open>
  The fractions 0 and 1, a sample of length 1, and a valid input without
  \<open>force_single\<close>.
\<close>

lemma sample_hdi_value_error_examples:
  "sample_hdi (\<lambda>_ _. (0, 0, 0)) [1, 2, 3] 0 False
      = Inl (ValueError ''fraction parameter must be between 0 and 1'')
   \<and> sample_hdi (\<lambda>_ _. (0, 0, 0)) [1, 2, 3] 1 False
      = Inl (ValueError ''fraction parameter must be between 0 and 1'')
   \<and> sample_hdi (\<lambda>_ _. (0, 0, 0)) [5] (1 / 2) False
      = Inl (ValueError ''The sample must have at least 2 elements'')
   \<and> \<not> (\<exists>e. sample_hdi (\<lambda>_ _. (0, 0, 0)) [0, 1, 2, 3] (1 / 2) False = Inl e)"
proof -
  have a: "sample_hdi (\<lambda>_ _. (0, 0, 0)) [1, 2, 3] 0 False
      = Inl (ValueError ''fraction parameter must be between 0 and 1'')"
    using sample_hdi_value_error_iff_invalid[of "\<lambda>_ _. (0, 0, 0)" "[1, 2, 3]" 0 False]
    by simp
  have b: "sample_hdi (\<lambda>_ _. (0, 0, 0)) [1, 2, 3] 1 False
      = Inl (ValueError ''fraction parameter must be between 0 and 1'')"
    using sample_hdi_value_error_iff_invalid[of "\<lambda>_ _. (0, 0, 0)" "[1, 2, 3]" 1 False]
    by simp
  have c: "sample_hdi (\<lambda>_ _. (0, 0, 0)) [5] (1 / 2) False
      = Inl (ValueError ''The sample must have at least 2 elements'')"
    using sample_hdi_value_error_iff_invalid[of "\<lambda>_ _. (0, 0, 0)" "[5]" "1 / 2" False]
    by simp
  have h: "\<forall>d. dbl_interval_length_init [0, 1, 2, 3] (1 / 2) = Inr d
      \<longrightarrow> in_search_region d (0, 0, 0)"
    by (simp add: dbl_interval_length_init_ok in_search_region_def py_int_def)
  have d: "\<not> (\<exists>e. sample_hdi (\<lambda>_ _. (0, 0, 0)) [0, 1, 2, 3] (1 / 2) False = Inl e)"
    using sample_hdi_value_error_iff_invalid[of "\<lambda>_ _. (0, 0, 0)" "[0, 1, 2, 3]" "1 / 2" False] h
    by simp
  from a b c d show ?thesis by (intro conjI)
qed

text \<open>
  Outside the search region \<^verbatim>\<open>return_intervals\<close> reads the sample at
  \<open>start + gap + L\<close>, beyond its last element.
\<close>

lemma return_intervals_outside_region:
  assumes "0 \<le> f1" "f1 \<le> 1" "0 \<le> p1" "0 \<le> p2"
    and "dil_space d - 1 < py_int p1 + py_int p2"
    and "0 \<le> dil_L d" "dil_space d = int (length (dil_sample d)) - dil_L d"
  shows "return_intervals d (f1, p1, p2) = Inl IndexError"
proof -
  define w1 where "w1 = py_int (f1 * real_of_int (dil_L d))"
  have s: "0 \<le> py_int p1" "0 \<le> py_int p2" using assms(3,4) by (simp_all add: py_int_def)
  have b: "int (length (dil_sample d)) \<le> py_int p1 + w1 + py_int p2 + (dil_L d - w1)"
    using assms(5,7) by simp
  have nn: "0 \<le> py_int p1 + w1 + py_int p2 + (dil_L d - w1)" using s assms(6) by simp
  have g4: "getitem (dil_sample d) (py_int p1 + w1 + py_int p2 + (dil_L d - w1)) = Inl IndexError"
    using b nn by (simp add: getitem_def)
  have ri: "e = IndexError" if "getitem (dil_sample d) i = Inl e" for i e
    using that by (simp add: getitem_def split: if_splits)
  show ?thesis
    unfolding return_intervals_def prod.case Let_def w1_def[symmetric] g4
    by (auto split: sum.splits dest: ri)
qed

text \<open>
  For a sample of eight equal elements and the fraction \<open>1/2\<close> the objective of the
  search is 0 at every point of the box given by \<^verbatim>\<open>get_bounds\<close>: every point of the
  box is a minimiser.
\<close>

lemma dbl_call_constant_sample:
  fixes f1 p1 p2 :: real
  assumes "0 \<le> f1" "f1 \<le> 1" "0 \<le> p1" "p1 \<le> 3" "0 \<le> p2" "p2 \<le> 3"
  shows "dbl_call \<lparr> dil_sample = [1, 1, 1, 1, 1, 1, 1, 1], dil_f = 1 / 2, dil_N = 8,
           dil_L = 4, dil_space = 4, dil_max_length = 0 \<rparr> (f1, p1, p2) = Inr 0"
proof -
  let ?d = "\<lparr> dil_sample = [1, 1, 1, 1, 1, 1, 1, 1 :: real], dil_f = 1 / 2, dil_N = 8,
           dil_L = 4, dil_space = 4, dil_max_length = 0 \<rparr>"
  have rep: "[1, 1, 1, 1, 1, 1, 1, 1 :: real] = replicate 8 1" by (simp add: numeral_eq_Suc)
  have g: "getitem [1, 1, 1, 1, 1, 1, 1, 1 :: real] i = Inr 1" if "0 \<le> i" "i < 8" for i
    unfolding rep using that by (simp add: getitem_def)
  define w1 where "w1 = py_int (f1 * real_of_int 4)"
  have w: "0 \<le> w1" "w1 \<le> 4"
    unfolding w1_def using py_int_unit_mult[OF assms(1,2), of 4] by simp_all
  have s: "0 \<le> py_int p1" "0 \<le> py_int p2" using assms(3,5) by (simp_all add: py_int_def)
  have sel: "dil_sample ?d = [1, 1, 1, 1, 1, 1, 1, 1]" "dil_L ?d = 4" "dil_space ?d = 4"
    "dil_max_length ?d = 0"
    by simp_all
  show ?thesis
  proof (cases "py_int p1 + py_int p2 > 3")
    case True
    then show ?thesis by (simp add: dbl_call_def Let_def)
  next
    case False
    have g1: "getitem [1, 1, 1, 1, 1, 1, 1, 1 :: real] (py_int p1 + w1) = Inr 1"
      using s w False by (intro g) linarith+
    have g2: "getitem [1, 1, 1, 1, 1, 1, 1, 1 :: real] (py_int p1) = Inr 1"
      using s w False by (intro g) linarith+
    have g3: "getitem [1, 1, 1, 1, 1, 1, 1, 1 :: real] (py_int p1 + w1 + py_int p2 + (4 - w1)) = Inr 1"
      using s w False by (intro g) linarith+
    have g4: "getitem [1, 1, 1, 1, 1, 1, 1, 1 :: real] (py_int p1 + w1 + py_int p2) = Inr 1"
      using s w False by (intro g) linarith+
    have c: "\<not> 4 - 1 < py_int p1 + py_int p2" using False by simp
    show ?thesis
      unfolding dbl_call_def prod.case Let_def sel w1_def[symmetric] g1 g2 g3 g4 sum.case
      using c by simp
  qed
qed

text \<open>
  Claim C8. Invalid input is not the only input on which \<^verbatim>\<open>sample_hdi\<close> raises.
  On a valid input (\<open>0 < fraction < 1\<close>, at least two elements), without
  \<open>force_single\<close>, let the optimiser return \<open>(f1, p1, p2)\<close> with \<open>0 \<le> f1 \<le> 1\<close>,
  \<open>0 \<le> p1\<close> and \<open>0 \<le> p2\<close>. Then \<^verbatim>\<open>sample_hdi\<close> raises an error if and only if
  \<open>int(p1) + int(p2) > space - 1\<close>, and the error is IndexError. This is the part of the
  box where \<^verbatim>\<open>__call__\<close> returns the penalty \<^verbatim>\<open>max_length\<close> without reading the
  sample; \<^verbatim>\<open>return_intervals\<close> has no such test.
\<close>

theorem sample_hdi_index_error_on_valid_input:
  fixes sample :: "real list" and fraction f1 p1 p2 :: real
  assumes "0 < fraction" "fraction < 1" "2 \<le> length sample"
    and "dbl_interval_length_init sample fraction = Inr d"
    and "de (dbl_call d) (get_bounds d) = (f1, p1, p2)"
    and "0 \<le> f1" "f1 \<le> 1" "0 \<le> p1" "0 \<le> p2"
  shows "((\<exists>e. sample_hdi de sample fraction False = Inl e)
            \<longleftrightarrow> dil_space d - 1 < py_int p1 + py_int p2)
     \<and> (dil_space d - 1 < py_int p1 + py_int p2
          \<longrightarrow> sample_hdi de sample fraction False = Inl IndexError
            \<and> dbl_call d (f1, p1, p2) = Inr (dil_max_length d))"
proof -
  define L where "L = nat \<lfloor>fraction * real (length sample)\<rfloor>"
  define s where "s = sort sample"
  from sample_hdi_valid[OF assms(1-3), folded s_def L_def]
  obtain i where all: "i + L < length sample
    \<and> argmin (hdi_widths s (int L)) = Inr i
    \<and> (\<forall>j. j + L < length sample \<longrightarrow> s ! (i + L) - s ! i \<le> s ! (j + L) - s ! j)
    \<and> (\<forall>de fs. sample_hdi de sample fraction fs =
       (let warned = (if int (length sample) - int L < 20 then [SmallRemainder] else []);
            r1 = (s ! i, s ! (i + L)) in
        if fs then Inr (warned, Single r1)
        else (case dbl_interval_length_init sample fraction of Inl e \<Rightarrow> Inl e | Inr minfunc \<Rightarrow>
          (case return_intervals minfunc (de (dbl_call minfunc) (get_bounds minfunc)) of
             Inl e \<Rightarrow> Inl e
           | Inr (I1, I2) \<Rightarrow>
               if (snd I2 - fst I2) + (snd I1 - fst I1) < (s ! (i + L) - s ! i) * 0.99
               then Inr (warned, Double I1 I2) else Inr (warned, Single r1)))))" ..
  from all have r: "sample_hdi de sample fraction False =
       (let warned = (if int (length sample) - int L < 20 then [SmallRemainder] else []);
            r1 = (s ! i, s ! (i + L)) in
        (case return_intervals d (f1, p1, p2) of
             Inl e \<Rightarrow> Inl e
           | Inr (I1, I2) \<Rightarrow>
               if (snd I2 - fst I2) + (snd I1 - fst I1) < (s ! (i + L) - s ! i) * 0.99
               then Inr (warned, Double I1 I2) else Inr (warned, Single r1)))"
    by (simp add: assms(4,5))
  have ne: "sample \<noteq> []" using assms(3) by auto
  note fl = dbl_init_fields[OF assms(4) assms(1) ne]
  have out: "sample_hdi de sample fraction False = Inl IndexError
      \<and> dbl_call d (f1, p1, p2) = Inr (dil_max_length d)"
    if h: "dil_space d - 1 < py_int p1 + py_int p2"
  proof -
    have "return_intervals d (f1, p1, p2) = Inl IndexError"
      using return_intervals_outside_region[OF assms(6-9) h fl] .
    then have "sample_hdi de sample fraction False = Inl IndexError"
      unfolding r Let_def by simp
    moreover have "dbl_call d (f1, p1, p2) = Inr (dil_max_length d)"
      using h by (simp add: dbl_call_def Let_def)
    ultimately show ?thesis by (rule conjI)
  qed
  have inside: "\<exists>res. sample_hdi de sample fraction False = Inr res"
    if h: "\<not> dil_space d - 1 < py_int p1 + py_int p2"
  proof -
    have "in_search_region d (f1, p1, p2)"
      using assms(6-9) h by (simp add: in_search_region_def)
    then obtain I where "return_intervals d (f1, p1, p2) = Inr I"
      using return_intervals_in_region fl by blast
    then show ?thesis unfolding r Let_def by (cases I) simp
  qed
  have "(\<exists>e. sample_hdi de sample fraction False = Inl e)
            \<longleftrightarrow> dil_space d - 1 < py_int p1 + py_int p2"
    using out inside by (cases "dil_space d - 1 < py_int p1 + py_int p2") auto
  then show ?thesis using out by blast
qed

text \<open>
  The theorem of claim C8 at the sample of eight ones, the fraction \<open>1/2\<close> and an
  optimiser that returns \<open>(1/2, 5/2, 5/2)\<close>, a point of the box \<open>[0,1] \<times> [0,3] \<times> [0,3]\<close>
  at which the objective is 0: \<open>start = gap = 2\<close>, \<open>w1 = w2 = 2\<close>, and the last read is
  \<^verbatim>\<open>sample[8]\<close>.
\<close>

theorem sample_hdi_index_error_on_valid_input_witness:
  "dbl_interval_length_init [1, 1, 1, 1, 1, 1, 1, 1] (1 / 2)
      = Inr \<lparr> dil_sample = [1, 1, 1, 1, 1, 1, 1, 1], dil_f = 1 / 2, dil_N = 8,
           dil_L = 4, dil_space = 4, dil_max_length = 0 \<rparr>
   \<and> get_bounds \<lparr> dil_sample = [1, 1, 1, 1, 1, 1, 1, 1], dil_f = 1 / 2, dil_N = 8,
           dil_L = 4, dil_space = 4, dil_max_length = 0 \<rparr> = [(0, 1), (0, 3), (0, 3)]
   \<and> dbl_call \<lparr> dil_sample = [1, 1, 1, 1, 1, 1, 1, 1], dil_f = 1 / 2, dil_N = 8,
           dil_L = 4, dil_space = 4, dil_max_length = 0 \<rparr> (1 / 2, 5 / 2, 5 / 2) = Inr 0
   \<and> sample_hdi (\<lambda>_ _. (1 / 2, 5 / 2, 5 / 2)) [1, 1, 1, 1, 1, 1, 1, 1] (1 / 2) False
      = Inl IndexError"
proof -
  let ?d = "\<lparr> dil_sample = [1, 1, 1, 1, 1, 1, 1, 1 :: real], dil_f = 1 / 2, dil_N = 8,
           dil_L = 4, dil_space = 4, dil_max_length = 0 \<rparr>"
  have h: "(0 :: real) < 1 / 2" "(1 / 2 :: real) < 1" "2 \<le> length [1, 1, 1, 1, 1, 1, 1, 1 :: real]"
    by simp_all
  have d: "dbl_interval_length_init [1, 1, 1, 1, 1, 1, 1, 1] (1 / 2) = Inr ?d"
    by (simp add: dbl_interval_length_init_ok py_int_def)
  have x: "(\<lambda>_ _. (1 / 2, 5 / 2, 5 / 2 :: real)) (dbl_call ?d) (get_bounds ?d)
      = (1 / 2 :: real, 5 / 2, 5 / 2)"
    by simp
  have q: "(0 :: real) \<le> 1 / 2" "(1 / 2 :: real) \<le> 1" "(0 :: real) \<le> 5 / 2" "(0 :: real) \<le> 5 / 2"
    by simp_all
  have p: "py_int (5 / 2) = 2" by (simp add: py_int_def)
  have o: "dil_space ?d - 1 < py_int (5 / 2) + py_int (5 / 2)" unfolding p by simp
  have b: "get_bounds ?d = [(0, 1), (0, 3), (0, 3)]" by (simp add: get_bounds_def)
  from sample_hdi_index_error_on_valid_input[OF h d x q] o
  have "sample_hdi (\<lambda>_ _. (1 / 2, 5 / 2, 5 / 2)) [1, 1, 1, 1, 1, 1, 1, 1] (1 / 2) False
      = Inl IndexError
    \<and> dbl_call ?d (1 / 2, 5 / 2, 5 / 2) = Inr (dil_max_length ?d)"
    by blast
  then show ?thesis using d b by simp
qed

subsection \<open>Single or double interval\<close>

text \<open>
  Where the optimiser's result can be read. Without \<open>force_single\<close>, on a valid input
  for which \<^verbatim>\<open>return_intervals\<close> yields the two intervals \<open>I1\<close> and \<open>I2\<close>,
  \<^verbatim>\<open>sample_hdi\<close> returns \<open>(I1, I2)\<close> if and only if their summed width is strictly
  less than 0.99 times the width of the best single interval \<open>r1\<close> (the one returned
  with \<open>force_single\<close>); otherwise it returns \<open>r1\<close>.
\<close>

lemma sample_hdi_double_iff_when_readable:
  fixes sample :: "real list" and fraction :: real
  assumes "0 < fraction" "fraction < 1" "2 \<le> length sample"
    and "dbl_interval_length_init sample fraction = Inr d"
    and "return_intervals d (de (dbl_call d) (get_bounds d)) = Inr (I1, I2)"
  shows "\<exists>ws r1. sample_hdi de sample fraction True = Inr (ws, Single r1)
     \<and> (sample_hdi de sample fraction False = Inr (ws, Double I1 I2)
          \<longleftrightarrow> (snd I2 - fst I2) + (snd I1 - fst I1) < (snd r1 - fst r1) * 0.99)
     \<and> (sample_hdi de sample fraction False = Inr (ws, Single r1)
          \<longleftrightarrow> \<not> (snd I2 - fst I2) + (snd I1 - fst I1) < (snd r1 - fst r1) * 0.99)"
proof -
  define L where "L = nat \<lfloor>fraction * real (length sample)\<rfloor>"
  define s where "s = sort sample"
  from sample_hdi_valid[OF assms(1-3), folded s_def L_def]
  obtain i where all: "i + L < length sample
    \<and> argmin (hdi_widths s (int L)) = Inr i
    \<and> (\<forall>j. j + L < length sample \<longrightarrow> s ! (i + L) - s ! i \<le> s ! (j + L) - s ! j)
    \<and> (\<forall>de fs. sample_hdi de sample fraction fs =
       (let warned = (if int (length sample) - int L < 20 then [SmallRemainder] else []);
            r1 = (s ! i, s ! (i + L)) in
        if fs then Inr (warned, Single r1)
        else (case dbl_interval_length_init sample fraction of Inl e \<Rightarrow> Inl e | Inr minfunc \<Rightarrow>
          (case return_intervals minfunc (de (dbl_call minfunc) (get_bounds minfunc)) of
             Inl e \<Rightarrow> Inl e
           | Inr (I1, I2) \<Rightarrow>
               if (snd I2 - fst I2) + (snd I1 - fst I1) < (s ! (i + L) - s ! i) * 0.99
               then Inr (warned, Double I1 I2) else Inr (warned, Single r1)))))" ..
  from all have r: "sample_hdi de sample fraction fs =
       (let warned = (if int (length sample) - int L < 20 then [SmallRemainder] else []);
            r1 = (s ! i, s ! (i + L)) in
        if fs then Inr (warned, Single r1)
        else (case dbl_interval_length_init sample fraction of Inl e \<Rightarrow> Inl e | Inr minfunc \<Rightarrow>
          (case return_intervals minfunc (de (dbl_call minfunc) (get_bounds minfunc)) of
             Inl e \<Rightarrow> Inl e
           | Inr (I1, I2) \<Rightarrow>
               if (snd I2 - fst I2) + (snd I1 - fst I1) < (s ! (i + L) - s ! i) * 0.99
               then Inr (warned, Double I1 I2) else Inr (warned, Single r1))))" for fs
    by (elim conjE) blast
  show ?thesis
    by (intro exI[of _ "if int (length sample) - int L < 20 then [SmallRemainder] else []"]
        exI[of _ "(s ! i, s ! (i + L))"])
      (simp add: r assms(4,5) Let_def)
qed

text \<open>
  The sample \<open>[0, 1, 10, 11]\<close>, the fraction \<open>1/2\<close> and an optimiser that returns
  \<open>(1/2, 0, 1)\<close>: the windows \<open>(0, 1)\<close> and \<open>(10, 11)\<close> have summed width 2, less than
  \<open>0.99 * 10\<close>.
\<close>

lemma sample_hdi_double_interval_example:
  "sample_hdi (\<lambda>_ _. (1 / 2, 0, 1)) [0, 1, 10, 11] (1 / 2) True
      = Inr ([SmallRemainder], Single (0, 10))
   \<and> sample_hdi (\<lambda>_ _. (1 / 2, 0, 1)) [0, 1, 10, 11] (1 / 2) False
      = Inr ([SmallRemainder], Double (0, 1) (10, 11))"
proof -
  have h: "(0 :: real) < 1 / 2" "(1 / 2 :: real) < 1" "2 \<le> length [0, 1, 10, 11 :: real]"
    by simp_all
  have s: "sort [0, 1, 10, 11 :: real] = [0, 1, 10, 11]" by simp
  let ?d = "\<lparr> dil_sample = [0, 1, 10, 11], dil_f = 1 / 2, dil_N = 4, dil_L = 2,
           dil_space = 2, dil_max_length = 11 \<rparr>"
  have d: "dbl_interval_length_init [0, 1, 10, 11] (1 / 2) = Inr ?d"
    by (simp add: dbl_interval_length_init_ok py_int_def)
  have ri: "return_intervals ?d ((\<lambda>_ _. (1 / 2, 0, 1)) (dbl_call ?d) (get_bounds ?d))
      = Inr ((0, 1), (10, 11))"
    by (simp add: return_intervals_def py_int_def getitem_def Let_def)
  have t: "sample_hdi (\<lambda>_ _. (1 / 2, 0, 1)) [0, 1, 10, 11] (1 / 2) True
      = Inr ([SmallRemainder], Single (0, 10))"
    by (simp add: sample_hdi_def py_int_def hdi_widths_def slice_from_def slice_to_def
      slice_index_def argmin_def getitem_def Let_def)
  from sample_hdi_double_iff_when_readable[OF h d ri] t
  show ?thesis by auto
qed

text \<open>
  Claim C2. On an accepted input \<^verbatim>\<open>sample_hdi\<close> can return neither solution. For the
  sample of eight ones and the fraction \<open>1/2\<close> the best single interval is \<open>(1, 1)\<close>, of
  width 0, returned with \<open>force_single\<close>. Without \<open>force_single\<close>, when the optimiser
  returns the point \<open>(1/2, 5/2, 5/2)\<close> of its box, \<^verbatim>\<open>return_intervals\<close> raises
  IndexError and so does \<^verbatim>\<open>sample_hdi\<close>: the double interval is not returned, and
  the single one is not returned in its place.
\<close>

theorem sample_hdi_returns_neither_interval:
  "dbl_interval_length_init [1, 1, 1, 1, 1, 1, 1, 1] (1 / 2)
      = Inr \<lparr> dil_sample = [1, 1, 1, 1, 1, 1, 1, 1], dil_f = 1 / 2, dil_N = 8,
           dil_L = 4, dil_space = 4, dil_max_length = 0 \<rparr>
   \<and> sample_hdi (\<lambda>_ _. (1 / 2, 5 / 2, 5 / 2)) [1, 1, 1, 1, 1, 1, 1, 1] (1 / 2) True
      = Inr ([SmallRemainder], Single (1, 1))
   \<and> return_intervals \<lparr> dil_sample = [1, 1, 1, 1, 1, 1, 1, 1], dil_f = 1 / 2, dil_N = 8,
           dil_L = 4, dil_space = 4, dil_max_length = 0 \<rparr> (1 / 2, 5 / 2, 5 / 2)
      = Inl IndexError
   \<and> sample_hdi (\<lambda>_ _. (1 / 2, 5 / 2, 5 / 2)) [1, 1, 1, 1, 1, 1, 1, 1] (1 / 2) False
      = Inl IndexError"
proof -
  have d: "dbl_interval_length_init [1, 1, 1, 1, 1, 1, 1, 1] (1 / 2)
      = Inr \<lparr> dil_sample = [1, 1, 1, 1, 1, 1, 1, 1], dil_f = 1 / 2, dil_N = 8,
           dil_L = 4, dil_space = 4, dil_max_length = 0 \<rparr>"
    by (simp add: dbl_interval_length_init_def py_int_def getitem_def Let_def)
  have a: "sample_hdi (\<lambda>_ _. (1 / 2, 5 / 2, 5 / 2)) [1, 1, 1, 1, 1, 1, 1, 1] (1 / 2) True
      = Inr ([SmallRemainder], Single (1, 1))"
    by (simp add: sample_hdi_def py_int_def hdi_widths_def slice_from_def slice_to_def
      slice_index_def argmin_def getitem_def Let_def)
  have b: "return_intervals \<lparr> dil_sample = [1, 1, 1, 1, 1, 1, 1, 1], dil_f = 1 / 2, dil_N = 8,
           dil_L = 4, dil_space = 4, dil_max_length = 0 \<rparr> (1 / 2, 5 / 2, 5 / 2)
      = Inl IndexError"
    by (simp add: return_intervals_def py_int_def getitem_def Let_def)
  have c: "sample_hdi (\<lambda>_ _. (1 / 2, 5 / 2, 5 / 2)) [1, 1, 1, 1, 1, 1, 1, 1] (1 / 2) False
      = Inl IndexError"
    by (simp add: sample_hdi_def py_int_def hdi_widths_def slice_from_def slice_to_def
      slice_index_def argmin_def getitem_def dbl_interval_length_init_def
      return_intervals_def Let_def)
  from d a b c show ?thesis by (intro conjI)
qed

text \<open>The theorem of claim C10 at the sample \<open>[0, 1, 2, 3]\<close> and the fraction \<open>1/2\<close>.\<close>

theorem sample_hdi_validated_reaches_minimisation_witness:
  "py_int (1 / 2 * real (length [0, 1, 2, 3 :: real])) = 2
   \<and> hdi_widths (sort [0, 1, 2, 3]) 2 \<noteq> []
   \<and> (\<exists>ws r. sample_hdi (\<lambda>_ _. (0, 0, 0)) [0, 1, 2, 3] (1 / 2) True = Inr (ws, Single r)
          \<and> InsufficientSamples \<notin> set ws)"
proof -
  have h: "(0 :: real) < 1 / 2" "(1 / 2 :: real) < 1" "2 \<le> length [0, 1, 2, 3 :: real]"
    by simp_all
  have p: "py_int (1 / 2 * real (length [0, 1, 2, 3 :: real])) = 2"
    by (simp add: py_int_def)
  from sample_hdi_validated_reaches_minimisation[OF h, of "\<lambda>_ _. (0, 0, 0)" True]
  show ?thesis unfolding p by simp
qed

section \<open>Termination of the binary search\<close>

















text \<open>
  A run on bounds that contain zero: the identity, the target \<open>3/4\<close> and the bounds
  \<open>(0, 1)\<close>. The loop leaves after eleven passes with the bracket \<open>(3/4, 1537/2048)\<close>,
  and the interpolation returns \<open>3/4\<close>.
\<close>

lemma binary_search_identity_example:
  "binary_search_loop (\<lambda>x. x) (3 / 4) True 0 1 ((0 + 1) * 0.5) = Some (Inr (3 / 4, 1537 / 2048))
   \<and> binary_search (\<lambda>x. x) (3 / 4) (0, 1) True = Some (Inr (3 / 4))"
proof -
  have l: "binary_search_loop (\<lambda>x. x) (3 / 4) True 0 1 ((0 + 1) * 0.5) = Some (Inr (3 / 4, 1537 / 2048))"
    by (simp add: binary_search_loop.simps Let_def)
  then show ?thesis unfolding binary_search_def prod.case by (simp add: Let_def)
qed




section \<open>The log-posterior of \<^verbatim>\<open>UnimodalPdf\<close>\<close>

text \<open>
  Claim C7. For every parameter vector \<open>(x0, s0, v, f, k, q)\<close>, \<^verbatim>\<open>posterior\<close> returns
  the sentinel \<open>-1e50\<close> when \<open>s0 > 0\<close>, \<open>0 < k < 20\<close>, \<open>1 < q < 6\<close> do not all hold, and
  otherwise the sum over the sample of the log-density of the model minus \<open>n\<close> times the
  logarithm of the normaliser. The function is total: neither branch raises.
\<close>

theorem posterior_sentinel_or_log_density:
  "(\<not> (s0 > 0 \<and> 0 < k \<and> k < 20 \<and> 1 < q \<and> q < 6)
      \<longrightarrow> posterior self (x0, s0, v, f, k, q) = - (10 ^ 50))
   \<and> (s0 > 0 \<and> 0 < k \<and> k < 20 \<and> 1 < q \<and> q < 6
      \<longrightarrow> posterior self (x0, s0, v, f, k, q)
          = (\<Sum>x\<leftarrow>up_x self.
               - (0.5 * (1 + (exp v + 1)))
                 * ln (1 + (\<bar>((x - x0) / s0) / exp (f * tanh (((x - x0) / s0) / k))\<bar> powr q)
                          / (exp v + 1)))
            - real (up_n self) * ln (norm_const self (x0, s0, v, f, k, q)))"
  by (simp add: posterior_def log_pdf_model_def Let_def)

text \<open>
  The theorem of claim C7 at \<open>s0 = 0\<close>, at \<open>k = 20\<close>, at \<open>q = 1\<close> (each violates one
  constraint), and at a parameter vector that satisfies the constraints.
\<close>

theorem posterior_sentinel_or_log_density_witness:
  "posterior \<lparr> up_x = [0], up_n = 1, up_sd = 1 / 5, up_u = [0], up_w = [1] \<rparr> (0, 0, 0, 0, 1, 2)
      = - (10 ^ 50)
   \<and> posterior \<lparr> up_x = [0], up_n = 1, up_sd = 1 / 5, up_u = [0], up_w = [1] \<rparr> (0, 1, 0, 0, 20, 2)
      = - (10 ^ 50)
   \<and> posterior \<lparr> up_x = [0], up_n = 1, up_sd = 1 / 5, up_u = [0], up_w = [1] \<rparr> (0, 1, 0, 0, 1, 1)
      = - (10 ^ 50)
   \<and> posterior \<lparr> up_x = [0], up_n = 1, up_sd = 1 / 5, up_u = [0], up_w = [1] \<rparr> (0, 1, 0, 0, 1, 2)
      = 0"
proof -
  let ?self = "\<lparr> up_x = [0], up_n = 1, up_sd = 1 / 5, up_u = [0], up_w = [1] \<rparr>"
  have n: "norm_const ?self (0, 1, 0, 0, 1, 2) = 1"
    by (simp add: norm_const_def pdf_model_def log_pdf_model_def Let_def)
  have a: "posterior ?self (0, 0, 0, 0, 1, 2) = - (10 ^ 50)"
    using posterior_sentinel_or_log_density[of 0 1 2 ?self 0 0 0] by simp
  have b: "posterior ?self (0, 1, 0, 0, 20, 2) = - (10 ^ 50)"
    using posterior_sentinel_or_log_density[of 1 20 2 ?self 0 0 0] by simp
  have c: "posterior ?self (0, 1, 0, 0, 1, 1) = - (10 ^ 50)"
    using posterior_sentinel_or_log_density[of 1 1 1 ?self 0 0 0] by simp
  have d: "posterior ?self (0, 1, 0, 0, 1, 2) = 0"
    using posterior_sentinel_or_log_density[of 1 1 2 ?self 0 0 0] n by simp
  from a b c d show ?thesis by (intro conjI)
qed

section \<open>Look-up in the \<^verbatim>\<open>BinaryTree\<close>\<close>

subsection \<open>The shape of the tree that is built\<close>

lemma item2_ptree: "item2 (ptree d a w) = Inr (a + 2 ^ d * w / 2)"
  by (cases d) (simp_all add: item2_def getitem_def)

lemma row_nth: "j < m \<Longrightarrow> row d a w m ! j = ptree d (a + real j * (2 ^ d * w)) w"
proof (induction m arbitrary: a j)
  case 0
  then show ?case by simp
next
  case (Suc m)
  show ?case
  proof (cases j)
    case 0
    then show ?thesis by simp
  next
    case (Suc k)
    then have "k < m" using Suc.prems by simp
    from Suc.IH[OF this, of "a + 2 ^ d * w"] show ?thesis
      using Suc by (simp add: algebra_simps)
  qed
qed

lemma length_row [simp]: "length (row d a w m) = m"
  by (induction m arbitrary: a) simp_all

lemma linspace_nth:
  "k < num \<Longrightarrow> linspace a b num ! k = a + real k * ((b - a) / real (num - 1))"
  by (simp add: linspace_def)

lemma leaf_nodes_row:
  fixes lo hi :: real and n :: nat
  defines "w \<equiv> (hi - lo) / 2 ^ n"
  shows "leaf_nodes (linspace lo hi (2 ^ n + 1)) n = row 0 lo w (2 ^ n)"
proof -
  define L where "L = linspace lo hi (2 ^ n + 1)"
  have "leaf_nodes L n = row 0 lo w (2 ^ n)"
  proof (rule nth_equalityI)
    show "length (leaf_nodes L n) = length (row 0 lo w (2 ^ n))"
      by (simp add: leaf_nodes_def)
    fix i assume "i < length (leaf_nodes L n)"
    then have i: "i < 2 ^ n" by (simp add: leaf_nodes_def)
    have i1: "i < 2 ^ n + 1" "i + 1 < 2 ^ n + 1" using i by simp_all
    have c: "(hi - lo) / real (2 ^ n + 1 - 1) = w" by (simp add: w_def)
    have a: "L ! i = lo + real i * w"
      unfolding L_def linspace_nth[OF i1(1)] c ..
    have "L ! (i + 1) = lo + real (i + 1) * w"
      unfolding L_def linspace_nth[OF i1(2)] c ..
    then have b: "L ! Suc i = lo + real i * w + w" by (simp add: distrib_right)
    have "leaf_nodes L n ! i
        = Lst [Num (lo + real i * w), Num (lo + real i * w + w),
               Num (0.5 * (lo + real i * w + (lo + real i * w + w)))]"
      using i by (simp add: leaf_nodes_def a b)
    also have "\<dots> = ptree 0 (lo + real i * (2 ^ 0 * w)) w" by simp
    also have "\<dots> = row 0 lo w (2 ^ n) ! i" using row_nth[OF i, of 0 lo w] by simp
    finally show "leaf_nodes L n ! i = row 0 lo w (2 ^ n) ! i" .
  qed
  then show ?thesis unfolding L_def .
qed

lemma merge_pairs_row:
  "merge_pairs (row d a w (2 * m)) = Inr (row (Suc d) a w m)"
proof (induction m arbitrary: a)
  case 0
  then show ?case by simp
next
  case (Suc m)
  have e: "a + 2 ^ d * w + 2 ^ d * w = a + 2 ^ Suc d * w" by simp
  have "row d a w (2 * Suc m) = row d a w (Suc (Suc (2 * m)))" by simp
  also have "\<dots> = ptree d a w # ptree d (a + 2 ^ d * w) w
      # row d (a + 2 ^ d * w + 2 ^ d * w) w (2 * m)"
    by (simp only: row.simps)
  finally have r: "row d a w (2 * Suc m) = ptree d a w # ptree d (a + 2 ^ d * w) w
      # row d (a + 2 ^ Suc d * w) w (2 * m)"
    unfolding e .
  have k: "0.5 * (a + 2 ^ d * w / 2 + (a + 2 ^ d * w + 2 ^ d * w / 2)) = a + 2 ^ d * w"
    by simp
  show ?case
    unfolding r merge_pairs.simps item2_ptree sum.case Suc.IH k
    by (simp only: row.simps ptree.simps)
qed

lemma merge_times_row:
  "merge_times k (row d a w (2 ^ k * m)) = Inr (row (d + k) a w m)"
proof (induction k arbitrary: d)
  case 0
  then show ?case by simp
next
  case (Suc k)
  have "row d a w (2 ^ Suc k * m) = row d a w (2 * (2 ^ k * m))" by (simp add: mult.assoc)
  then show ?case using Suc.IH[of "Suc d"] by (simp add: merge_pairs_row)
qed

lemma BinaryTree_init_ptree:
  fixes lo hi :: real
  assumes "0 < n"
  shows "BinaryTree_init n (lo, hi) =
    Inr \<lparr> bt_n = n, bt_lims = (lo, hi), bt_midpoint = 0.5 * (lo + hi),
          bt_mids = midpoints (linspace lo hi (2 ^ n + 1)),
          bt_tree = ptree n lo ((hi - lo) / 2 ^ n) \<rparr>"
proof -
  obtain k where n: "n = Suc k" using assms by (cases n) auto
  define w where "w = (hi - lo) / 2 ^ n"
  have r2: "row k lo w 2 = [ptree k lo w, ptree k (lo + 2 ^ k * w) w]"
    by (simp add: numeral_2_eq_2)
  have "leaf_nodes (linspace lo hi (2 ^ n + 1)) n = row 0 lo w (2 ^ k * 2)"
    unfolding leaf_nodes_row w_def n by (simp add: mult.commute)
  then have m: "merge_times (n - 1) (leaf_nodes (linspace lo hi (2 ^ n + 1)) n)
      = Inr [ptree k lo w, ptree k (lo + 2 ^ k * w) w]"
    using merge_times_row[of k 0 lo w 2] r2 by (simp add: n)
  have mid: "0.5 * (lo + hi) = lo + 2 ^ k * w"
    unfolding w_def n by (simp add: field_simps)
  show ?thesis
    unfolding BinaryTree_init_def Let_def fst_conv snd_conv m sum.case mid w_def[symmetric]
    by (simp add: n)
qed

subsection \<open>Descending the tree\<close>

lemma lookup_steps_ptree:
  "\<exists>j<2 ^ d. lookup_steps d (ptree d a w) x = Inr (ptree 0 (a + real j * w) w)
      \<and> (j = 0 \<or> a + real j * w < x) \<and> (j + 1 = 2 ^ d \<or> x \<le> a + real (j + 1) * w)"
proof (induction d arbitrary: a)
  case 0
  show ?case by (rule exI[of _ 0]) simp
next
  case (Suc d)
  have key: "item2 (ptree (Suc d) a w) = Inr (a + 2 ^ d * w)"
    unfolding item2_ptree by simp
  show ?case
  proof (cases "x > a + 2 ^ d * w")
    case True
    from Suc.IH[of "a + 2 ^ d * w"] obtain j where j: "j < 2 ^ d"
      "lookup_steps d (ptree d (a + 2 ^ d * w) w) x = Inr (ptree 0 (a + 2 ^ d * w + real j * w) w)"
      "j = 0 \<or> a + 2 ^ d * w + real j * w < x"
      "j + 1 = 2 ^ d \<or> x \<le> a + 2 ^ d * w + real (j + 1) * w"
      by blast
    have e: "a + 2 ^ d * w + real k * w = a + real (2 ^ d + k) * w" for k
      by (simp add: algebra_simps)
    have st: "lookup_steps (Suc d) (ptree (Suc d) a w) x
        = lookup_steps d (ptree d (a + 2 ^ d * w) w) x"
      using True unfolding lookup_steps.simps key sum.case
      by (simp add: getitem_def)
    have "2 ^ d + j < 2 ^ Suc d" using j(1) by simp
    moreover have "lookup_steps (Suc d) (ptree (Suc d) a w) x
        = Inr (ptree 0 (a + real (2 ^ d + j) * w) w)"
      unfolding st j(2) e ..
    moreover have "2 ^ d + j = 0 \<or> a + real (2 ^ d + j) * w < x"
      using j(3) True unfolding e by (cases "j = 0") simp_all
    moreover have "2 ^ d + j + 1 = 2 ^ Suc d \<or> x \<le> a + real (2 ^ d + j + 1) * w"
      using j(4) unfolding e by (simp add: add.assoc)
    ultimately show ?thesis by blast
  next
    case False
    from Suc.IH[of a] obtain j where j: "j < 2 ^ d"
      "lookup_steps d (ptree d a w) x = Inr (ptree 0 (a + real j * w) w)"
      "j = 0 \<or> a + real j * w < x"
      "j + 1 = 2 ^ d \<or> x \<le> a + real (j + 1) * w"
      by blast
    have st: "lookup_steps (Suc d) (ptree (Suc d) a w) x = lookup_steps d (ptree d a w) x"
      using False unfolding lookup_steps.simps key sum.case
      by (simp add: getitem_def)
    have "j < 2 ^ Suc d" using j(1) by simp
    moreover have "x \<le> a + real (j + 1) * w"
    proof (cases "j + 1 = 2 ^ d")
      case True
      then have "real (j + 1) = 2 ^ d" by (metis of_nat_numeral of_nat_power)
      then show ?thesis using False by simp
    next
      case False
      then show ?thesis using j(4) by simp
    qed
    ultimately show ?thesis using j(2,3) st by auto
  qed
qed

lemma in_bucket_leaf: "in_bucket x (ptree 0 a w) = (a \<le> x \<and> x \<le> a + w)"
  by simp

lemma row0_nth: "j < m \<Longrightarrow> row 0 a w m ! j = ptree 0 (a + real j * w) w"
  using row_nth[of j m 0 a w] by simp

text \<open>
  With at least one layer and \<open>lo < hi\<close>, the tree is built without error and
  \<^verbatim>\<open>lookup\<close> returns the bucket a linear scan finds for every \<open>x\<close> of \<open>[lo, hi]\<close>, the
  first bucket for \<open>x < lo\<close> and the last one for \<open>x > hi\<close>.
\<close>

lemma lookup_agrees_with_linear_scan:
  fixes lo hi x :: real
  assumes "0 < layers" "lo < hi"
  shows "\<exists>bt. BinaryTree_init layers (lo, hi) = Inr bt
     \<and> (lo \<le> x \<and> x \<le> hi \<longrightarrow>
          (\<exists>b. linear_scan layers (lo, hi) x = Some b \<and> lookup bt x = Inr b))
     \<and> (x < lo \<longrightarrow>
          lookup bt x = Inr (hd (leaf_nodes (linspace lo hi (2 ^ layers + 1)) layers)))
     \<and> (hi < x \<longrightarrow>
          lookup bt x = Inr (last (leaf_nodes (linspace lo hi (2 ^ layers + 1)) layers)))"
proof -
  define w where "w = (hi - lo) / 2 ^ layers"
  define leaves where "leaves = row 0 lo w (2 ^ layers)"
  define bt where "bt = \<lparr> bt_n = layers, bt_lims = (lo, hi), bt_midpoint = 0.5 * (lo + hi),
          bt_mids = midpoints (linspace lo hi (2 ^ layers + 1)),
          bt_tree = ptree layers lo w \<rparr>"
  have w: "0 < w" using assms(2) by (simp add: w_def)
  have top: "lo + 2 ^ layers * w = hi" by (simp add: w_def)
  have init: "BinaryTree_init layers (lo, hi) = Inr bt"
    unfolding bt_def w_def by (rule BinaryTree_init_ptree[OF assms(1)])
  have lv: "leaf_nodes (linspace lo hi (2 ^ layers + 1)) layers = leaves"
    unfolding leaves_def w_def by (rule leaf_nodes_row)
  have len: "length leaves = 2 ^ layers" by (simp add: leaves_def)
  have nth: "leaves ! i = ptree 0 (lo + real i * w) w" if "i < 2 ^ layers" for i
    unfolding leaves_def by (rule row0_nth[OF that])
  obtain j where j: "j < 2 ^ layers"
    "lookup_steps layers (ptree layers lo w) x = Inr (ptree 0 (lo + real j * w) w)"
    "j = 0 \<or> lo + real j * w < x"
    "j + 1 = 2 ^ layers \<or> x \<le> lo + real (j + 1) * w"
    using lookup_steps_ptree[of layers lo w x] by blast
  have lk: "lookup bt x = Inr (leaves ! j)"
    unfolding lookup_def bt_def nth[OF j(1)] using j(2) by simp
  have mono: "lo + real (i + 1) * w \<le> lo + real k * w" if "i < k" for i k
  proof -
    have "real (i + 1) \<le> real k" using that by simp
    then show ?thesis using w by (simp only: add_left_mono mult_right_mono less_imp_le)
  qed
  have inside: "\<exists>b. linear_scan layers (lo, hi) x = Some b \<and> lookup bt x = Inr b"
    if x: "lo \<le> x" "x \<le> hi"
  proof -
    have lower: "lo + real j * w \<le> x" using j(3) x(1) by auto
    have upper: "x \<le> lo + real j * w + w"
    proof (cases "j + 1 = 2 ^ layers")
      case True
      then have "real (j + 1) = 2 ^ layers" by (metis of_nat_numeral of_nat_power)
      then have "lo + real (j + 1) * w = hi" using top by simp
      then have "lo + real j * w + w = hi" by (simp add: algebra_simps)
      then show ?thesis using x(2) by simp
    next
      case False
      then show ?thesis using j(4) by (simp add: algebra_simps)
    qed
    have hit: "in_bucket x (leaves ! j)"
      unfolding nth[OF j(1)] in_bucket_leaf using lower upper by simp
    have miss: "\<not> in_bucket x (leaves ! i)" if i: "i < j" for i
    proof -
      have "i < 2 ^ layers" using i j(1) by simp
      moreover have "lo + real j * w < x" using j(3) i by auto
      moreover have "lo + real (i + 1) * w \<le> lo + real j * w" using mono[OF i] .
      ultimately show ?thesis
        unfolding nth[OF \<open>i < 2 ^ layers\<close>] in_bucket_leaf by (simp add: algebra_simps)
    qed
    have "find (in_bucket x) leaves = Some (leaves ! j)"
      unfolding find_Some_iff using j(1) len hit miss by auto
    then have "linear_scan layers (lo, hi) x = Some (leaves ! j)"
      unfolding linear_scan_def fst_conv snd_conv lv .
    then show ?thesis using lk by blast
  qed
  have below: "lookup bt x = Inr (hd leaves)" if x: "x < lo"
  proof -
    have "j = 0"
    proof (rule ccontr)
      assume "j \<noteq> 0"
      then have "lo + real j * w < x" using j(3) by simp
      moreover have "0 \<le> real j * w" using w by simp
      ultimately show False using x by linarith
    qed
    moreover have "hd leaves = leaves ! 0" using len by (intro hd_conv_nth) auto
    ultimately show ?thesis using lk by simp
  qed
  have above: "lookup bt x = Inr (last leaves)" if x: "hi < x"
  proof -
    have "j + 1 = 2 ^ layers"
    proof (rule ccontr)
      assume n: "j + 1 \<noteq> 2 ^ layers"
      then have "x \<le> lo + real (j + 1) * w" using j(4) by simp
      moreover have "j + 1 \<le> 2 ^ layers" using j(1) by simp
      then have "real (j + 1) \<le> real (2 ^ layers)" by (simp only: of_nat_le_iff)
      then have "real (j + 1) \<le> 2 ^ layers" by simp
      then have "real (j + 1) * w \<le> 2 ^ layers * w"
        using w by (intro mult_right_mono) simp_all
      then have "lo + real (j + 1) * w \<le> hi" using top by linarith
      ultimately show False using x by linarith
    qed
    then have "j = 2 ^ layers - 1" by linarith
    moreover have "last leaves = leaves ! (2 ^ layers - 1)"
      using len by (subst last_conv_nth) auto
    ultimately show ?thesis using lk by simp
  qed
  show ?thesis
    unfolding lv using init inside below above by (intro exI[of _ bt] conjI impI) auto
qed

text \<open>
  Claim C3 at \<open>layers = 0\<close>. The single bucket of \<open>[0, 1]\<close> is \<^verbatim>\<open>[0, 1, 0.5]\<close> and
  the linear scan finds it, but the constructor appends the midpoint to the one-element
  list of trees, and \<^verbatim>\<open>lookup\<close>, which descends zero steps, returns
  \<^verbatim>\<open>[[0, 1, 0.5], 0.5]\<close>: not a bucket. Reading its entry 2, as
  \<^verbatim>\<open>GaussianKDE.density\<close> does, raises IndexError.
\<close>

theorem lookup_zero_layers_not_a_leaf:
  "BinaryTree_init 0 (0, 1) =
      Inr \<lparr> bt_n = 0, bt_lims = (0, 1), bt_midpoint = 1 / 2, bt_mids = [1 / 2],
            bt_tree = Lst [Lst [Num 0, Num 1, Num (1 / 2)], Num (1 / 2)] \<rparr>
   \<and> lookup \<lparr> bt_n = 0, bt_lims = (0, 1), bt_midpoint = 1 / 2, bt_mids = [1 / 2],
            bt_tree = Lst [Lst [Num 0, Num 1, Num (1 / 2)], Num (1 / 2)] \<rparr> (1 / 4)
        = Inr (Lst [Lst [Num 0, Num 1, Num (1 / 2)], Num (1 / 2)])
   \<and> linear_scan 0 (0, 1) (1 / 4) = Some (Lst [Num 0, Num 1, Num (1 / 2)])
   \<and> item2 (Lst [Lst [Num 0, Num 1, Num (1 / 2)], Num (1 / 2)]) = Inl IndexError"
  by (simp add: BinaryTree_init_def linspace_def midpoints_def leaf_nodes_def Let_def
      lookup_def linear_scan_def item2_def getitem_def)

section \<open>The cross-validation score\<close>

lemma foldl_logaddexp: "foldl logaddexp a xs = ln (exp a + (\<Sum>x\<leftarrow>xs. exp x))"
proof (induction xs arbitrary: a)
  case Nil
  then show ?case by simp
next
  case (Cons x xs)
  have pos: "0 < exp a + exp x" by (simp add: add_pos_pos)
  have "foldl logaddexp a (x # xs) = foldl logaddexp (logaddexp a x) xs" by simp
  also have "\<dots> = ln (exp (logaddexp a x) + (\<Sum>x\<leftarrow>xs. exp x))" by (rule Cons.IH)
  also have "exp (logaddexp a x) = exp a + exp x"
    unfolding logaddexp_def by (rule exp_ln[OF pos])
  finally show ?case by (simp add: add.assoc)
qed

lemma exp_log_kernel:
  assumes "0 < h"
  shows "exp (log_kernel p s h) = exp (- (((p - s) / (sqrt 2 * h))\<^sup>2)) / h"
proof -
  have "((p - s) / (sqrt 2 * h))\<^sup>2 = 0.5 * ((p - s) / h)\<^sup>2"
    by (simp add: power_divide power_mult_distrib)
  then show ?thesis using assms by (simp add: log_kernel_def Let_def exp_diff)
qed

lemma kernel_sum_nonneg: "0 \<le> kernel_sum samples h p"
  unfolding kernel_sum_def by (intro sum_list_nonneg) auto

lemma kernel_sum_Cons:
  "kernel_sum (a # xs) h p = exp (- (((p - a) / (sqrt 2 * h))\<^sup>2)) + kernel_sum xs h p"
  by (simp add: kernel_sum_def)

lemma kernel_sum_pos: "samples \<noteq> [] \<Longrightarrow> 0 < kernel_sum samples h p"
proof (cases samples)
  case Nil
  then show "samples \<noteq> [] \<Longrightarrow> ?thesis" by simp
next
  case (Cons a xs)
  have "0 < exp (- (((p - a) / (sqrt 2 * h))\<^sup>2)) + kernel_sum xs h p"
    using kernel_sum_nonneg[of xs h p] by (intro add_pos_nonneg) simp_all
  then show ?thesis unfolding Cons kernel_sum_Cons .
qed

lemma kernel_sum_ge_1:
  assumes "p \<in> set samples"
  shows "1 \<le> kernel_sum samples h p"
  using assms
proof (induction samples)
  case Nil
  then show ?case by simp
next
  case (Cons a xs)
  show ?case
  proof (cases "p = a")
    case True
    then show ?thesis
      unfolding kernel_sum_Cons using kernel_sum_nonneg[of xs h p] by simp
  next
    case False
    then have "1 \<le> kernel_sum xs h p" using Cons by simp
    moreover have "0 \<le> exp (- (((p - a) / (sqrt 2 * h))\<^sup>2))" by simp
    ultimately show ?thesis unfolding kernel_sum_Cons by linarith
  qed
qed

lemma sum_list_divide_const:
  fixes c :: real
  shows "(\<Sum>x\<leftarrow>xs. f x / c) = (\<Sum>x\<leftarrow>xs. f x) / c"
  by (induction xs) (simp_all add: add_divide_distrib)

lemma log_evaluation_closed:
  assumes "samples \<noteq> []" "0 < h"
  shows "log_evaluation points samples h =
    Inr (map (\<lambda>p. ln (kernel_sum samples h p / (h * real (length samples) * sqrt (2 * pi)))) points)"
proof -
  obtain s0 rest where sr: "samples = s0 # rest" using assms(1) by (cases samples) auto
  have n: "0 < real (length samples) * sqrt (2 * pi)" using assms(1) by simp
  have "foldl logaddexp (log_kernel p s0 h) (map (\<lambda>s. log_kernel p s h) rest)
         - ln (real (length samples) * sqrt (2 * pi))
      = ln (kernel_sum samples h p / (h * real (length samples) * sqrt (2 * pi)))" for p
  proof -
    have "exp (log_kernel p s0 h) + (\<Sum>x\<leftarrow>map (\<lambda>s. log_kernel p s h) rest. exp x)
        = (\<Sum>s\<leftarrow>samples. exp (log_kernel p s h))"
      by (simp add: sr comp_def)
    also have "\<dots> = (\<Sum>s\<leftarrow>samples. exp (- (((p - s) / (sqrt 2 * h))\<^sup>2)) / h)"
      by (simp only: exp_log_kernel[OF assms(2)])
    also have "\<dots> = kernel_sum samples h p / h"
      unfolding kernel_sum_def by (rule sum_list_divide_const)
    finally have e: "exp (log_kernel p s0 h) + (\<Sum>x\<leftarrow>map (\<lambda>s. log_kernel p s h) rest. exp x)
        = kernel_sum samples h p / h" .
    have kp: "0 < kernel_sum samples h p / h"
      using kernel_sum_pos[OF assms(1)] assms(2) by simp
    have "ln (kernel_sum samples h p / h) - ln (real (length samples) * sqrt (2 * pi))
        = ln (kernel_sum samples h p / h / (real (length samples) * sqrt (2 * pi)))"
      using ln_divide_pos[OF kp n] by simp
    then show ?thesis unfolding foldl_logaddexp e by (simp add: mult.assoc)
  qed
  then show ?thesis unfolding log_evaluation_def sr list.case by (simp add: sr)
qed

lemma loo_term:
  fixes S D c :: real
  assumes "1 \<le> S" "0 < D" "0 < c" "c < 1"
  shows "(let d = ln c - ln D - ln (S / D); loo_adjustment = ln (1 - exp d)
          in ln (S / D) + loo_adjustment) = ln ((S - c) / D)"
proof -
  have S: "0 < S" using assms(1) by linarith
  have SD: "0 < S / D" using S assms(2) by simp
  have "exp (ln c - ln D - ln (S / D)) = c / D / (S / D)"
    using assms(2,3) SD by (simp add: exp_diff)
  also have "\<dots> = c / S" using assms(2) S by simp
  finally have e: "exp (ln c - ln D - ln (S / D)) = c / S" .
  have "1 - c / S = (S - c) / S" using S by (simp add: field_simps)
  moreover have p: "0 < (S - c) / S" using S assms(1,4) by simp
  ultimately have "ln (S / D) + ln (1 - c / S) = ln (S / D * ((S - c) / S))"
    using ln_mult_pos[OF SD p] by simp
  also have "S / D * ((S - c) / S) = (S - c) / D" using S by simp
  finally show ?thesis unfolding Let_def e .
qed

lemma cross_validation_logprob_closed:
  assumes "samples \<noteq> []" "0 < h" "0 < c" "c < 1"
  shows "cross_validation_logprob samples h c =
    Inr (\<Sum>p\<leftarrow>samples. ln ((kernel_sum samples h p - c)
                             / (h * real (length samples) * sqrt (2 * pi))))"
proof -
  define D where "D = h * real (length samples) * sqrt (2 * pi)"
  have D: "0 < D" using assms(1,2) by (simp add: D_def)
  have t: "(let d = ln c - ln D - ln (kernel_sum samples h p / D);
                loo_adjustment = ln (1 - exp d)
            in ln (kernel_sum samples h p / D) + loo_adjustment)
         = ln ((kernel_sum samples h p - c) / D)" if "p \<in> set samples" for p
    by (rule loo_term[OF kernel_sum_ge_1[OF that] D assms(3,4)])
  have "map ((\<lambda>lp. let d = ln c - ln D - lp; loo_adjustment = ln (1 - exp d)
                    in lp + loo_adjustment) \<circ> (\<lambda>p. ln (kernel_sum samples h p / D))) samples
      = map (\<lambda>p. ln ((kernel_sum samples h p - c) / D)) samples"
    by (rule map_cong[OF refl]) (simp only: comp_def t)
  then have m: "map (\<lambda>lp. let d = ln c - ln D - lp; loo_adjustment = ln (1 - exp d)
                    in lp + loo_adjustment) (map (\<lambda>p. ln (kernel_sum samples h p / D)) samples)
      = map (\<lambda>p. ln ((kernel_sum samples h p - c) / D)) samples"
    by (simp only: map_map)
  show ?thesis
    unfolding cross_validation_logprob_def log_evaluation_closed[OF assms(1,2)] sum.case
      D_def[symmetric] m ..
qed

lemma sum_list_over_indices:
  "(\<Sum>x\<leftarrow>xs. f x) = (\<Sum>i\<leftarrow>[0..<length xs]. f (xs ! i))"
proof -
  have "map f xs = map f (map (\<lambda>i. xs ! i) [0..<length xs])" by (simp only: map_nth)
  then show ?thesis by (simp add: comp_def)
qed

lemma sum_list_split_index:
  fixes g :: "nat \<Rightarrow> real"
  assumes "i < n"
  shows "(\<Sum>j\<leftarrow>[0..<n]. g j) = g i + (\<Sum>j\<leftarrow>filter (\<lambda>j. j \<noteq> i) [0..<n]. g j)"
proof -
  have "i \<in> set [0..<n]" using assms by simp
  then have "(\<Sum>j\<leftarrow>[0..<n]. g j) = g i + (\<Sum>j\<leftarrow>remove1 i [0..<n]. g j)"
    by (rule sum_list_map_remove1)
  moreover have "remove1 i [0..<n] = filter (\<lambda>j. j \<noteq> i) [0..<n]"
  proof -
    have "remove1 i [0..<n] = removeAll i [0..<n]"
      by (rule distinct_remove1_removeAll) simp
    also have "\<dots> = filter (\<lambda>j. i \<noteq> j) [0..<n]" by (simp add: removeAll_filter_not_eq)
    also have "\<dots> = filter (\<lambda>j. j \<noteq> i) [0..<n]" by (rule filter_cong) auto
    finally show ?thesis .
  qed
  ultimately show ?thesis by simp
qed

lemma kernel_sum_leave_one_out:
  assumes "i < length s"
  shows "kernel_sum s h (s ! i) - c =
    (\<Sum>j\<leftarrow>filter (\<lambda>j. j \<noteq> i) [0..<length s].
        exp (- (((s ! i - s ! j) / (sqrt 2 * h))\<^sup>2))) + (1 - c)"
proof -
  have "kernel_sum s h (s ! i)
      = (\<Sum>j\<leftarrow>[0..<length s]. exp (- (((s ! i - s ! j) / (sqrt 2 * h))\<^sup>2)))"
    unfolding kernel_sum_def by (rule sum_list_over_indices)
  also have "\<dots> = exp (- (((s ! i - s ! i) / (sqrt 2 * h))\<^sup>2))
      + (\<Sum>j\<leftarrow>filter (\<lambda>j. j \<noteq> i) [0..<length s].
           exp (- (((s ! i - s ! j) / (sqrt 2 * h))\<^sup>2)))"
    by (rule sum_list_split_index[OF assms])
  finally show ?thesis by simp
qed

lemma cross_validation_logprob_indexed:
  assumes "s \<noteq> []" "0 < h" "0 < c" "c < 1"
  shows "cross_validation_logprob s h c =
    Inr (\<Sum>i\<leftarrow>[0..<length s].
           ln (1 / (real (length s) * sqrt (2 * pi) * h)
               * ((\<Sum>j\<leftarrow>filter (\<lambda>j. j \<noteq> i) [0..<length s].
                     exp (- (((s ! i - s ! j) / (sqrt 2 * h))\<^sup>2))) + (1 - c))))"
proof -
  have "(\<Sum>p\<leftarrow>s. ln ((kernel_sum s h p - c) / (h * real (length s) * sqrt (2 * pi))))
      = (\<Sum>i\<leftarrow>[0..<length s].
           ln ((kernel_sum s h (s ! i) - c) / (h * real (length s) * sqrt (2 * pi))))"
    by (rule sum_list_over_indices)
  also have "\<dots> = (\<Sum>i\<leftarrow>[0..<length s].
           ln (1 / (real (length s) * sqrt (2 * pi) * h)
               * ((\<Sum>j\<leftarrow>filter (\<lambda>j. j \<noteq> i) [0..<length s].
                     exp (- (((s ! i - s ! j) / (sqrt 2 * h))\<^sup>2))) + (1 - c))))"
  proof (rule arg_cong[where f = sum_list], rule map_cong[OF refl])
    fix i assume "i \<in> set [0..<length s]"
    then have i: "i < length s" by simp
    show "ln ((kernel_sum s h (s ! i) - c) / (h * real (length s) * sqrt (2 * pi)))
        = ln (1 / (real (length s) * sqrt (2 * pi) * h)
               * ((\<Sum>j\<leftarrow>filter (\<lambda>j. j \<noteq> i) [0..<length s].
                     exp (- (((s ! i - s ! j) / (sqrt 2 * h))\<^sup>2))) + (1 - c)))"
      unfolding kernel_sum_leave_one_out[OF i] by (simp add: mult_ac)
  qed
  finally show ?thesis
    unfolding cross_validation_logprob_closed[OF assms] by simp
qed

text \<open>
  Claim C6, as amended. For every non-empty sample \<open>s\<close> of length \<open>n\<close> and every
  bandwidth \<open>h > 0\<close>, \<^verbatim>\<open>cross_validation_logprob(s, h)\<close> with its default
  \<open>c = 0.99\<close> is
  \<open>\<Sum>\<^sub>i log [ 1 / (n \<surd>(2\<pi>) h) * (0.01 + \<Sum>\<^sub>j\<^sub>\<noteq>\<^sub>i exp (- ((s\<^sub>i - s\<^sub>j) / (\<surd>2 h))\<^sup>2)) ]\<close>:
  the normaliser is \<open>n\<close>, not \<open>n - 1\<close>, and one hundredth of each sample's own kernel
  stays in the sum.
\<close>

theorem cross_validation_logprob_objective:
  assumes "s \<noteq> []" "0 < h"
  shows "cross_validation_logprob s h 0.99 =
    Inr (\<Sum>i\<leftarrow>[0..<length s].
           ln (1 / (real (length s) * sqrt (2 * pi) * h)
               * ((\<Sum>j\<leftarrow>filter (\<lambda>j. j \<noteq> i) [0..<length s].
                     exp (- (((s ! i - s ! j) / (sqrt 2 * h))\<^sup>2))) + 0.01)))"
proof -
  have c: "(0 :: real) < 0.99" "(0.99 :: real) < 1" "1 - (0.99 :: real) = 0.01" by simp_all
  show ?thesis
    unfolding cross_validation_logprob_indexed[OF assms c(1,2)] c(3) ..
qed

text \<open>The theorem of claim C6 at the sample \<open>[0, 0]\<close> and the bandwidth 1.\<close>

theorem cross_validation_logprob_objective_witness:
  "[0, 0 :: real] \<noteq> [] \<and> (0 :: real) < 1
   \<and> cross_validation_logprob [0, 0] 1 0.99 =
    Inr (\<Sum>i\<leftarrow>[0..<length [0, 0 :: real]].
           ln (1 / (real (length [0, 0 :: real]) * sqrt (2 * pi) * 1)
               * ((\<Sum>j\<leftarrow>filter (\<lambda>j. j \<noteq> i) [0..<length [0, 0 :: real]].
                     exp (- ((([0, 0] ! i - [0, 0] ! j) / (sqrt 2 * 1))\<^sup>2))) + 0.01)))"
proof -
  have h: "[0, 0 :: real] \<noteq> []" "(0 :: real) < 1" by simp_all
  show ?thesis by (intro conjI h cross_validation_logprob_objective[OF h])
qed

text \<open>
  Claim C6 as stated fails at the sample \<open>[0, 0]\<close> and the bandwidth 1: the code
  returns \<open>2 log (1.01 / (2 \<surd>(2\<pi>)))\<close>, the leave-one-out objective of the
  specification is \<open>2 log (1 / \<surd>(2\<pi>))\<close>.
\<close>

theorem cross_validation_logprob_not_loo_counterexample:
  "cross_validation_logprob [0, 0] 1 0.99 \<noteq> Inr (loo_objective [0, 0] 1)"
proof -
  have c: "(0 :: real) < 0.99" "(0.99 :: real) < 1" by simp_all
  have h: "[0, 0 :: real] \<noteq> []" "(0 :: real) < 1" by simp_all
  have k: "kernel_sum [0, 0] 1 0 = 2" by (simp add: kernel_sum_def)
  have code: "cross_validation_logprob [0, 0] 1 0.99
      = Inr (2 * ln (1.01 / (2 * sqrt (2 * pi))))"
    unfolding cross_validation_logprob_closed[OF h c] by (simp add: k)
  have up: "[0..<2] = [0, Suc 0]" by (simp add: upt_rec)
  have spec: "loo_objective [0, 0] 1 = 2 * ln (1 / sqrt (2 * pi))"
    by (simp add: loo_objective_def up)
  have pa: "0 < 1.01 / (2 * sqrt (2 * pi))" by simp
  have pb: "0 < 1 / sqrt (2 * pi)" by simp
  have "1.01 / (2 * sqrt (2 * pi)) \<noteq> 1 / sqrt (2 * pi)"
  proof
    assume "1.01 / (2 * sqrt (2 * pi)) = 1 / sqrt (2 * pi)"
    moreover have "0 < sqrt (2 * pi)" by simp
    ultimately show False by (simp add: field_simps)
  qed
  then have "ln (1.01 / (2 * sqrt (2 * pi))) \<noteq> ln (1 / sqrt (2 * pi))"
    using ln_inj_iff[OF pa pb] by blast
  then show ?thesis unfolding code spec by simp
qed

section \<open>The grid of the cross-validated bandwidth selection\<close>

lemma std_0_2: "std [0, 2] = 1"
  by (simp add: std_def mean_def)

lemma rule_of_thumb_0_2: "simple_bandwidth_estimator [0, 2] = 1.06 / 2 powr 0.2"
  by (simp add: simple_bandwidth_estimator_def std_0_2)

lemma rule_of_thumb_0_2_bounds:
  "0 < simple_bandwidth_estimator [0, 2]" "simple_bandwidth_estimator [0, 2] < 1"
proof -
  show "0 < simple_bandwidth_estimator [0, 2]" unfolding rule_of_thumb_0_2 by simp
  have "(1.06 :: real) = 106 / 100" by simp
  then have "(1.06 :: real) ^ 5 = 106 ^ 5 / 100 ^ 5" by (simp only: power_divide)
  also have "\<dots> < 2" by (simp only: divide_less_eq) simp
  finally have lt: "(1.06 :: real) ^ 5 < 2" .
  have p: "(0 :: real) < 1.06" by simp
  have "((1.06 :: real) ^ 5) = 1.06 powr 5" using powr_realpow[OF p, of 5] by simp
  then have "((1.06 :: real) ^ 5) powr (1 / 5) = (1.06 powr 5) powr (1 / 5)" by (rule arg_cong)
  also have "\<dots> = 1.06 powr (5 * (1 / 5))" by (rule powr_powr)
  also have "\<dots> = 1.06" by simp
  finally have r: "((1.06 :: real) ^ 5) powr (1 / 5) = 1.06" .
  have "((1.06 :: real) ^ 5) powr (1 / 5) < 2 powr (1 / 5)"
    using lt by (intro powr_less_mono2) simp_all
  then have "(1.06 :: real) < 2 powr (1 / 5)" unfolding r .
  then have "(1.06 :: real) < 2 powr 0.2" by simp
  then have "1.06 / 2 powr 0.2 < (1 :: real)" by (simp add: divide_less_eq)
  then show "simple_bandwidth_estimator [0, 2] < 1" unfolding rule_of_thumb_0_2 .
qed

text \<open>
  Claim C5 at the sample \<open>[0, 2]\<close>. Its rule-of-thumb bandwidth is
  \<open>h = 1.06 / 2^0.2\<close>, about 0.92, whose logarithm is negative. The grid of
  log-bandwidths that \<^verbatim>\<open>cross_validation_bandwidth_estimator\<close> scores first is
  \<open>h + m/2\<close> for \<open>m = -2, ..., 2\<close>: it is centred on the bandwidth \<open>h\<close> itself, not on
  \<open>log h\<close> as the claim (and the name \<^verbatim>\<open>log_h\<close> of the list) says, so the five
  bandwidths scored are \<open>exp (h + m/2)\<close> and not \<open>h exp (m/2)\<close>.
\<close>

theorem cross_validation_grid_centre_is_not_log_bandwidth:
  "simple_bandwidth_estimator [0, 2] = 1.06 / 2 powr 0.2
   \<and> initial_grid (simple_bandwidth_estimator [0, 2]) 0.5
       = [simple_bandwidth_estimator [0, 2] - 1, simple_bandwidth_estimator [0, 2] - 0.5,
          simple_bandwidth_estimator [0, 2], simple_bandwidth_estimator [0, 2] + 0.5,
          simple_bandwidth_estimator [0, 2] + 1]
   \<and> ln (simple_bandwidth_estimator [0, 2]) < 0
   \<and> 0 < simple_bandwidth_estimator [0, 2]
   \<and> initial_grid (simple_bandwidth_estimator [0, 2]) 0.5
       \<noteq> map (\<lambda>m. ln (simple_bandwidth_estimator [0, 2]) + m * 0.5) [- 2, - 1, 0, 1, 2]"
proof -
  define h where "h = simple_bandwidth_estimator [0, 2]"
  have b: "0 < h" "h < 1" unfolding h_def by (rule rule_of_thumb_0_2_bounds)+
  have l: "ln h < 0" using b by simp
  have g: "initial_grid h 0.5 = [h - 1, h - 0.5, h, h + 0.5, h + 1]"
    by (simp add: initial_grid_def)
  have "initial_grid h 0.5 \<noteq> map (\<lambda>m. ln h + m * 0.5) [- 2, - 1, 0, 1, 2]"
  proof
    assume "initial_grid h 0.5 = map (\<lambda>m. ln h + m * 0.5) [- 2, - 1, 0, 1, 2]"
    then have "h = ln h" unfolding g by simp
    then show False using l b by linarith
  qed
  then show ?thesis
    using rule_of_thumb_0_2 g l b(1) unfolding h_def by blast
qed

section \<open>The slices of \<^verbatim>\<open>GaussianKDE\<close>\<close>

lemma searchsorted_iff:
  assumes "sorted s"
  shows "j < searchsorted s v \<longleftrightarrow> j < length s \<and> s ! j < v"
proof -
  define k where "k = length (takeWhile (\<lambda>x. x < v) s)"
  have kl: "k \<le> length s" unfolding k_def by (rule length_takeWhile_le)
  have below: "s ! j < v" if "j < k" for j
  proof -
    have "takeWhile (\<lambda>x. x < v) s ! j = s ! j" using that unfolding k_def by (rule takeWhile_nth)
    moreover have "takeWhile (\<lambda>x. x < v) s ! j \<in> set (takeWhile (\<lambda>x. x < v) s)"
      using that unfolding k_def by (rule nth_mem)
    ultimately show ?thesis using set_takeWhileD by fastforce
  qed
  have above: "\<not> s ! j < v" if "k \<le> j" "j < length s" for j
  proof -
    have "k < length s" using that by simp
    then have "\<not> s ! k < v" unfolding k_def by (rule nth_length_takeWhile)
    moreover have "s ! k \<le> s ! j" using assms that by (simp add: sorted_nth_mono)
    ultimately show ?thesis by linarith
  qed
  show ?thesis unfolding searchsorted_def k_def[symmetric]
    using kl below above by (metis le_less_linear less_le_trans)
qed

lemma map_upds_nth_distinct:
  assumes "length xs = length ys" "distinct xs" "i < length xs"
  shows "(m(xs [\<mapsto>] ys)) (xs ! i) = Some (ys ! i)"
  using assms
proof (induction xs ys arbitrary: m i rule: list_induct2)
  case Nil
  then show ?case by simp
next
  case (Cons x xs y ys)
  show ?case
  proof (cases i)
    case 0
    then show ?thesis using Cons.prems by simp
  next
    case (Suc k)
    then have "k < length xs" "distinct xs" using Cons.prems by simp_all
    then have "((m(x \<mapsto> y))(xs [\<mapsto>] ys)) (xs ! k) = Some (ys ! k)"
      by (intro Cons.IH)
    then show ?thesis unfolding Suc by (simp only: map_upds_Cons nth_Cons_Suc)
  qed
qed

lemma length_midpoints: "length (midpoints L) = length L - 1"
  by (simp add: midpoints_def)

lemma midpoints_linspace_nth:
  fixes a b :: real
  assumes "i < N"
  shows "midpoints (linspace a b (N + 1)) ! i = a + (real i + 1 / 2) * ((b - a) / real N)"
proof -
  define L where "L = linspace a b (N + 1)"
  define W where "W = (b - a) / real N"
  have len: "length L = N + 1" by (simp add: L_def linspace_def)
  have i1: "i < N + 1" "i + 1 < N + 1" using assms by simp_all
  have c: "(b - a) / real (N + 1 - 1) = W" by (simp add: W_def)
  have x: "L ! i = a + real i * W"
    unfolding L_def linspace_nth[OF i1(1)] c ..
  have y: "L ! (i + 1) = a + real (i + 1) * W"
    unfolding L_def linspace_nth[OF i1(2)] c ..
  have t: "tl L ! i = L ! (i + 1)" using assms len by (simp add: nth_tl)
  have u: "butlast L ! i = L ! i" using assms len by (simp add: nth_butlast)
  have "midpoints L ! i = 0.5 * (tl L ! i + butlast L ! i)"
    using assms len by (simp add: midpoints_def)
  also have "\<dots> = 0.5 * ((a + real (i + 1) * W) + (a + real i * W))"
    unfolding t u x y ..
  also have "\<dots> = a + (real i + 1 / 2) * W" by (simp add: algebra_simps)
  finally show ?thesis unfolding L_def W_def .
qed

lemma distinct_midpoints_linspace:
  fixes a b :: real
  assumes "a < b"
  shows "distinct (midpoints (linspace a b (N + 1)))"
proof -
  have len: "length (midpoints (linspace a b (N + 1))) = N"
    by (simp add: length_midpoints linspace_def)
  show ?thesis
  proof (cases "N = 0")
    case True
    then show ?thesis using len by simp
  next
    case False
    define W where "W = (b - a) / real N"
    have w: "W \<noteq> 0" using assms False by (simp add: W_def)
    show ?thesis unfolding distinct_conv_nth len
    proof (intro allI impI)
      fix i j assume ij: "i < N" "j < N" "i \<noteq> j"
      then have "real i + 1 / 2 \<noteq> real j + 1 / 2" by simp
      then have "(real i + 1 / 2) * W \<noteq> (real j + 1 / 2) * W"
        using w by (simp only: mult_cancel_right) simp
      then show "midpoints (linspace a b (N + 1)) ! i \<noteq> midpoints (linspace a b (N + 1)) ! j"
        unfolding midpoints_linspace_nth[OF ij(1)] midpoints_linspace_nth[OF ij(2)]
          W_def[symmetric] by simp
    qed
  qed
qed

lemma getitem_first_last:
  assumes "xs \<noteq> []"
  shows "getitem xs 0 = Inr (xs ! 0)" "getitem xs (- 1) = Inr (xs ! (length xs - 1))"
proof -
  have n: "0 < length xs" using assms by simp
  show "getitem xs 0 = Inr (xs ! 0)" using n by (simp add: getitem_def)
  have "nat (int (length xs) + - 1) = length xs - 1" using n by linarith
  then show "getitem xs (- 1) = Inr (xs ! (length xs - 1))"
    using n by (simp add: getitem_def Suc_le_eq)
qed

lemma getitem_Nil: "getitem [] i = Inl IndexError"
  by (simp add: getitem_def)

lemma region_layers_Inr:
  assumes "region_layers width h = Inr n" "0 \<le> width"
  shows "0 < h" "0 < width" "n = py_int (ln (width / h) / ln 2) + 1"
proof -
  have h0: "h \<noteq> 0" using assms(1) by (auto simp: region_layers_def split: if_splits)
  have q0: "width / h \<noteq> 0" "\<not> width / h < 0"
    using assms(1) h0 by (auto simp: region_layers_def split: if_splits)
  then have q: "0 < width / h" by linarith
  show "n = py_int (ln (width / h) / ln 2) + 1"
    using assms(1) h0 q by (auto simp: region_layers_def split: if_splits)
  show "0 < width" using q assms(2) by (cases "h < 0") (auto simp: zero_less_divide_iff)
  then show "0 < h" using q by (simp add: zero_less_divide_iff)
qed

lemma GaussianKDE_init_fields:
  assumes "GaussianKDE_init sample bandwidth cv max_cvs scr = Inr kde"
  defines "s \<equiv> sort sample"
  defines "s_first \<equiv> sort sample ! 0" and "s_last \<equiv> sort sample ! (length sample - 1)"
  shows "\<exists>h n. sample \<noteq> [] \<and> 0 < h \<and> s_first < s_last
    \<and> region_layers (s_last - s_first) h = Inr (int n)
    \<and> (\<forall>b. bandwidth = Some b \<longrightarrow> h = b)
    \<and> kde_s kde = s \<and> kde_h kde = h \<and> kde_cutoff kde = h * 4
    \<and> kde_slice_map kde =
         Map.empty(midpoints (linspace s_first s_last (2 ^ n + 1)) [\<mapsto>]
           zip (map (\<lambda>m. searchsorted s (m - h * 4)) (midpoints (linspace s_first s_last (2 ^ n + 1))))
               (map (\<lambda>m. searchsorted s (m + h * 4)) (midpoints (linspace s_first s_last (2 ^ n + 1)))))
    \<and> BinaryTree_init n (s_first, s_last) = Inr (kde_tree kde)"
proof -
  let ?hb = "(case bandwidth of
              None \<Rightarrow>
                (if cv
                 then cross_validation_bandwidth_estimator s max_cvs scr
                        (simple_bandwidth_estimator s)
                 else Inr (simple_bandwidth_estimator s))
            | Some b \<Rightarrow> Inr b)"
  note init = assms(1)[unfolded GaussianKDE_init_def Let_def, folded s_def]
  obtain h where h: "?hb = Inr h" using init by (cases ?hb) simp_all
  note init2 = init[unfolded h sum.case]
  have ne: "sample \<noteq> []"
  proof
    assume "sample = []"
    then have "s = []" by (simp add: s_def)
    then show False using init2 by (simp add: getitem_Nil)
  qed
  then have sne: "s \<noteq> []" unfolding s_def by (simp add: sort_eq_Nil_iff)
  have len: "length s = length sample" by (simp add: s_def)
  have g: "getitem s 0 = Inr s_first" "getitem s (- 1) = Inr s_last"
    using getitem_first_last[OF sne] unfolding len s_def s_first_def s_last_def by simp_all
  note init3 = init2[unfolded g sum.case]
  obtain n' where n': "region_layers (s_last - s_first) h = Inr n'"
    using init3 by (cases "region_layers (s_last - s_first) h") simp_all
  note init4 = init3[unfolded n' sum.case]
  have nn: "\<not> n' < 0" using init4 by (auto split: if_splits)
  define n where "n = nat n'"
  have n: "n' = int n" using nn by (simp add: n_def)
  note init5 = init4[unfolded if_not_P[OF nn], folded n_def]
  obtain tree where tree: "BinaryTree_init n (s_first, s_last) = Inr tree"
    using init5 by (cases "BinaryTree_init n (s_first, s_last)") simp_all
  note init6 = init5[unfolded tree sum.case]
  have srt: "sorted s" by (simp add: s_def)
  have "s ! 0 \<le> s ! (length s - 1)" using srt sne by (intro sorted_nth_mono) simp_all
  then have w0: "0 \<le> s_last - s_first" unfolding s_first_def s_last_def s_def[symmetric] len by simp
  from region_layers_Inr[OF n' w0] have hp: "0 < h" and wp: "s_first < s_last" by simp_all
  have f: "kde_s kde = s" "kde_h kde = h" "kde_cutoff kde = h * 4" "kde_tree kde = tree"
    "kde_slice_map kde =
         Map.empty(midpoints (linspace s_first s_last (2 ^ n + 1)) [\<mapsto>]
           zip (map (\<lambda>m. searchsorted s (m - h * 4)) (midpoints (linspace s_first s_last (2 ^ n + 1))))
               (map (\<lambda>m. searchsorted s (m + h * 4)) (midpoints (linspace s_first s_last (2 ^ n + 1)))))"
    using init6 by auto
  have hb: "\<forall>b. bandwidth = Some b \<longrightarrow> h = b" using h by auto
  show ?thesis
    using ne hp wp n'[unfolded n] hb f(1,2,3,5) tree[folded f(4)]
    by (intro exI[of _ h] exI[of _ n] conjI)
qed

lemma BinaryTree_init_fields:
  assumes "BinaryTree_init n lims = Inr bt"
  shows "bt_n bt = n" "bt_lims bt = lims"
    "bt_mids bt = midpoints (linspace (fst lims) (snd lims) (2 ^ n + 1))"
  using assms by (auto simp: BinaryTree_init_def Let_def split: sum.splits)

lemma BinaryTree_init_total: "\<exists>bt. BinaryTree_init n (lo, hi) = Inr bt"
proof (cases n)
  case 0
  then show ?thesis by (simp add: BinaryTree_init_def Let_def)
next
  case (Suc k)
  then have "0 < n" by simp
  from BinaryTree_init_ptree[OF this, of lo hi] show ?thesis by blast
qed

lemma py_int_plus_one_gt: "t < real_of_int (py_int t + 1)"
proof (cases "0 \<le> t")
  case True
  then show ?thesis by (simp add: py_int_def)
next
  case False
  have "t \<le> real_of_int \<lceil>t\<rceil>" by (rule le_of_int_ceiling)
  then have "t < real_of_int \<lceil>t\<rceil> + 1" by linarith
  then show ?thesis using False by (simp add: py_int_def)
qed

lemma region_layers_width:
  assumes "region_layers width h = Inr (int n)" "0 \<le> width"
  shows "width / 2 ^ n < h"
proof -
  from region_layers_Inr[OF assms] have h: "0 < h" and w: "0 < width"
    and n: "int n = py_int (ln (width / h) / ln 2) + 1" by simp_all
  have r: "0 < width / h" using h w by simp
  have "ln (width / h) / ln 2 < real_of_int (py_int (ln (width / h) / ln 2) + 1)"
    by (rule py_int_plus_one_gt)
  then have "log 2 (width / h) < real n" unfolding n[symmetric] log_def by simp
  then have "width / h < 2 powr real n" using r by (simp add: log_less_iff)
  then have "width / h < 2 ^ n" by (simp add: powr_realpow)
  then show ?thesis using h by (simp add: field_simps)
qed

lemma slice_of_bucket:
  fixes s :: "real list"
  assumes srt: "sorted s" and w: "s_first < s_last" and h: "0 < h"
    and wd: "(s_last - s_first) / 2 ^ n < h" and i: "i < 2 ^ n"
  defines "mids \<equiv> midpoints (linspace s_first s_last (2 ^ n + 1))"
  defines "sm \<equiv> Map.empty(mids [\<mapsto>]
           zip (map (\<lambda>m. searchsorted s (m - h * 4)) mids)
               (map (\<lambda>m. searchsorted s (m + h * 4)) mids))"
  shows "\<exists>a b m l u.
       leaf_nodes (linspace s_first s_last (2 ^ n + 1)) n ! i = Lst [Num a, Num b, Num m]
     \<and> mids ! i = m
     \<and> sm m = Some (l, u)
     \<and> (\<forall>j. l \<le> j \<and> j < u \<longleftrightarrow> j < length s \<and> m - h * 4 \<le> s ! j \<and> s ! j < m + h * 4)
     \<and> (\<forall>x j. a \<le> x \<and> x \<le> b \<and> j < length s \<and> \<not> (l \<le> j \<and> j < u)
            \<longrightarrow> 3.5 * h < \<bar>x - s ! j\<bar>)"
proof -
  define W where "W = (s_last - s_first) / 2 ^ n"
  define a where "a = s_first + real i * W"
  define m where "m = a + W / 2"
  define l where "l = searchsorted s (m - h * 4)"
  define u where "u = searchsorted s (m + h * 4)"
  have Wp: "0 < W" "W < h" using w wd by (simp_all add: W_def)
  have len: "length mids = 2 ^ n" by (simp add: mids_def length_midpoints linspace_def)
  have leaf: "leaf_nodes (linspace s_first s_last (2 ^ n + 1)) n ! i
      = Lst [Num a, Num (a + W), Num m]"
    unfolding leaf_nodes_row W_def[symmetric] row0_nth[OF i] a_def m_def by simp
  have "mids ! i = s_first + (real i + 1 / 2) * ((s_last - s_first) / real (2 ^ n))"
    unfolding mids_def by (rule midpoints_linspace_nth[OF i])
  also have "(s_last - s_first) / real (2 ^ n) = W" by (simp add: W_def)
  also have "s_first + (real i + 1 / 2) * W = m"
    unfolding m_def a_def by (simp add: algebra_simps)
  finally have mid: "mids ! i = m" .
  have dist: "distinct mids" unfolding mids_def by (rule distinct_midpoints_linspace[OF w])
  have "sm (mids ! i) = Some (zip (map (\<lambda>m. searchsorted s (m - h * 4)) mids)
               (map (\<lambda>m. searchsorted s (m + h * 4)) mids) ! i)"
    unfolding sm_def using dist i len by (intro map_upds_nth_distinct) simp_all
  then have sl: "sm m = Some (l, u)"
    using i len by (simp add: l_def u_def mid)
  have idx: "l \<le> j \<and> j < u \<longleftrightarrow> j < length s \<and> m - h * 4 \<le> s ! j \<and> s ! j < m + h * 4" for j
  proof -
    have lo: "j < l \<longleftrightarrow> j < length s \<and> s ! j < m - h * 4"
      unfolding l_def by (rule searchsorted_iff[OF srt])
    have up: "j < u \<longleftrightarrow> j < length s \<and> s ! j < m + h * 4"
      unfolding u_def by (rule searchsorted_iff[OF srt])
    show ?thesis using lo up by auto
  qed
  have far: "3.5 * h < \<bar>x - s ! j\<bar>"
    if x: "a \<le> x" "x \<le> a + W" and j: "j < length s" "\<not> (l \<le> j \<and> j < u)" for x j
  proof -
    have out: "s ! j < m - h * 4 \<or> m + h * 4 \<le> s ! j" using idx[of j] j by auto
    have near: "m - W / 2 \<le> x" "x \<le> m + W / 2" using x unfolding m_def by simp_all
    from out show ?thesis
    proof
      assume "s ! j < m - h * 4"
      then have "3.5 * h < x - s ! j" using near(1) Wp(2) by linarith
      moreover have "x - s ! j \<le> \<bar>x - s ! j\<bar>" by (rule abs_ge_self)
      ultimately show ?thesis by linarith
    next
      assume "m + h * 4 \<le> s ! j"
      then have "3.5 * h < - (x - s ! j)" using near(2) Wp(2) by linarith
      moreover have "- (x - s ! j) \<le> \<bar>x - s ! j\<bar>" by (rule abs_ge_minus_self)
      ultimately show ?thesis by linarith
    qed
  qed
  have idx': "\<forall>j. l \<le> j \<and> j < u \<longleftrightarrow> j < length s \<and> m - h * 4 \<le> s ! j \<and> s ! j < m + h * 4"
    using idx by (intro allI)
  have far': "\<forall>x j. a \<le> x \<and> x \<le> a + W \<and> j < length s \<and> \<not> (l \<le> j \<and> j < u)
            \<longrightarrow> 3.5 * h < \<bar>x - s ! j\<bar>"
  proof (intro allI impI)
    fix x j assume c: "a \<le> x \<and> x \<le> a + W \<and> j < length s \<and> \<not> (l \<le> j \<and> j < u)"
    then have "a \<le> x" "x \<le> a + W" "j < length s" "\<not> (l \<le> j \<and> j < u)" by blast+
    then show "3.5 * h < \<bar>x - s ! j\<bar>" by (rule far)
  qed
  show ?thesis
    by (intro exI[of _ a] exI[of _ "a + W"] exI[of _ m] exI[of _ l] exI[of _ u] conjI)
      (rule leaf mid sl idx' far')+
qed

text \<open>
  Claim C4, as amended. For every \<^verbatim>\<open>GaussianKDE\<close> after construction and every
  bucket \<open>[a, b]\<close> of its partition, with midpoint \<open>m\<close>: the sample is sorted, the
  cutoff is \<open>4h\<close>, and the slice \<open>(l, u)\<close> stored in \<^verbatim>\<open>slice_map\<close> under \<open>m\<close> holds
  exactly the indices \<open>j\<close> of the sorted sample with \<open>m - cutoff \<le> s[j] < m + cutoff\<close>:
  the samples within the cutoff of the midpoint of the bucket. The bucket is narrower
  than \<open>h\<close>, so every sample left out of the slice is farther than \<open>3.5 h\<close> from every
  point of the bucket: the truncated kernel sum drops only kernels beyond 3.5
  bandwidths.
\<close>

theorem slice_map_holds_samples_near_bucket_midpoint:
  assumes "GaussianKDE_init sample bandwidth cv max_cvs scr = Inr kde"
    and "i < 2 ^ bt_n (kde_tree kde)"
  shows "sorted (kde_s kde) \<and> kde_cutoff kde = kde_h kde * 4 \<and> 0 < kde_h kde
     \<and> (\<exists>a b m l u.
       leaf_nodes (linspace (fst (bt_lims (kde_tree kde))) (snd (bt_lims (kde_tree kde)))
          (2 ^ bt_n (kde_tree kde) + 1)) (bt_n (kde_tree kde)) ! i = Lst [Num a, Num b, Num m]
     \<and> bt_mids (kde_tree kde) ! i = m
     \<and> kde_slice_map kde m = Some (l, u)
     \<and> (\<forall>j. l \<le> j \<and> j < u \<longleftrightarrow>
            j < length (kde_s kde) \<and> m - kde_cutoff kde \<le> kde_s kde ! j
              \<and> kde_s kde ! j < m + kde_cutoff kde)
     \<and> (\<forall>x j. a \<le> x \<and> x \<le> b \<and> j < length (kde_s kde) \<and> \<not> (l \<le> j \<and> j < u)
            \<longrightarrow> 3.5 * kde_h kde < \<bar>x - kde_s kde ! j\<bar>))"
proof -
  define s where "s = sort sample"
  define s_first where "s_first = sort sample ! 0"
  define s_last where "s_last = sort sample ! (length sample - 1)"
  from GaussianKDE_init_fields[OF assms(1), folded s_def s_first_def s_last_def]
  obtain h n where f: "sample \<noteq> [] \<and> 0 < h \<and> s_first < s_last
    \<and> region_layers (s_last - s_first) h = Inr (int n)
    \<and> (\<forall>b. bandwidth = Some b \<longrightarrow> h = b)
    \<and> kde_s kde = s \<and> kde_h kde = h \<and> kde_cutoff kde = h * 4
    \<and> kde_slice_map kde =
         Map.empty(midpoints (linspace s_first s_last (2 ^ n + 1)) [\<mapsto>]
           zip (map (\<lambda>m. searchsorted s (m - h * 4)) (midpoints (linspace s_first s_last (2 ^ n + 1))))
               (map (\<lambda>m. searchsorted s (m + h * 4)) (midpoints (linspace s_first s_last (2 ^ n + 1)))))
    \<and> BinaryTree_init n (s_first, s_last) = Inr (kde_tree kde)"
    by blast
  from f have hp: "0 < h" and w: "s_first < s_last"
    and rl: "region_layers (s_last - s_first) h = Inr (int n)"
    and ks: "kde_s kde = s" and kh: "kde_h kde = h" and kc: "kde_cutoff kde = h * 4"
    and sm: "kde_slice_map kde =
         Map.empty(midpoints (linspace s_first s_last (2 ^ n + 1)) [\<mapsto>]
           zip (map (\<lambda>m. searchsorted s (m - h * 4)) (midpoints (linspace s_first s_last (2 ^ n + 1))))
               (map (\<lambda>m. searchsorted s (m + h * 4)) (midpoints (linspace s_first s_last (2 ^ n + 1)))))"
    and bt: "BinaryTree_init n (s_first, s_last) = Inr (kde_tree kde)"
    by blast+
  note tf = BinaryTree_init_fields[OF bt, unfolded fst_conv snd_conv]
  have srt: "sorted s" by (simp add: s_def)
  have wd: "(s_last - s_first) / 2 ^ n < h"
    using region_layers_width[OF rl] w by simp
  have i: "i < 2 ^ n" using assms(2) unfolding tf(1) .
  from slice_of_bucket[OF srt w hp wd i]
  show ?thesis
    unfolding ks kh kc tf sm fst_conv snd_conv using srt hp by blast
qed

lemma GaussianKDE_init_explicit:
  assumes "sample \<noteq> []"
    and "region_layers (sort sample ! (length sample - 1) - sort sample ! 0) h = Inr (int n)"
  shows "\<exists>kde. GaussianKDE_init sample (Some h) cv max_cvs scr = Inr kde"
proof -
  define a where "a = sort sample ! 0"
  define b where "b = sort sample ! (length sample - 1)"
  have sne: "sort sample \<noteq> []" using assms(1) by (simp add: sort_eq_Nil_iff)
  have len: "length (sort sample) = length sample" by simp
  note g = getitem_first_last[OF sne, unfolded len, folded a_def b_def]
  note r = assms(2)[folded a_def b_def]
  obtain bt where bt: "BinaryTree_init n (a, b) = Inr bt"
    using BinaryTree_init_total by blast
  have nn: "\<not> int n < 0" "nat (int n) = n" by simp_all
  show ?thesis
    unfolding GaussianKDE_init_def Let_def option.case sum.case g r if_not_P[OF nn(1)] nn(2) bt
    by blast
qed

lemma layers_5_1: "region_layers 5 1 = Inr 3"
proof -
  have "ln 5 / ln (2 :: real) = log 2 5" by (simp add: log_def)
  moreover have "\<lfloor>log 2 (5 :: real)\<rfloor> = 2"
    by (rule floor_log_eq_powr_iff[THEN iffD2]) auto
  moreover have "0 \<le> log 2 (5 :: real)" by simp
  ultimately have "py_int (ln 5 / ln 2) = 2" by (simp add: py_int_def)
  then show ?thesis by (simp add: region_layers_def)
qed

lemma sort_example: "sort [0, 4.2, 4.5, 5 :: real] = [0, 4.2, 4.5, 5]"
  by simp

lemma example_kde:
  assumes "GaussianKDE_init [0, 4.2, 4.5, 5] (Some 1) False 5000 [] = Inr kde"
  shows "bt_n (kde_tree kde) = 3" "kde_cutoff kde = 4" "kde_h kde = 1"
    "kde_s kde = [0, 4.2, 4.5, 5]"
    "kde_slice_map kde (5 / 16) = Some (0, 2)"
    "bt_lims (kde_tree kde) = (0, 5)"
proof -
  let ?s = "[0, 4.2, 4.5, 5 :: real]"
  from GaussianKDE_init_fields[OF assms, unfolded sort_example]
  obtain h n where f: "0 < h"
    "region_layers (?s ! (length ?s - 1) - ?s ! 0) h = Inr (int n)"
    "\<forall>b. Some (1 :: real) = Some b \<longrightarrow> h = b"
    "kde_s kde = ?s" "kde_h kde = h" "kde_cutoff kde = h * 4"
    "kde_slice_map kde =
         Map.empty(midpoints (linspace (?s ! 0) (?s ! (length ?s - 1)) (2 ^ n + 1)) [\<mapsto>]
           zip (map (\<lambda>m. searchsorted ?s (m - h * 4))
                  (midpoints (linspace (?s ! 0) (?s ! (length ?s - 1)) (2 ^ n + 1))))
               (map (\<lambda>m. searchsorted ?s (m + h * 4))
                  (midpoints (linspace (?s ! 0) (?s ! (length ?s - 1)) (2 ^ n + 1)))))"
    "BinaryTree_init n (?s ! 0, ?s ! (length ?s - 1)) = Inr (kde_tree kde)"
    by blast
  have h: "h = 1" using f(3) by simp
  have e: "?s ! (length ?s - 1) = 5" "?s ! 0 = 0" by simp_all
  have "Inr (int n) = (Inr 3 :: py_error + int)"
    using f(2) unfolding e h by (simp add: layers_5_1)
  then have n: "n = 3" by simp
  note tf = BinaryTree_init_fields[OF f(8), unfolded e n fst_conv snd_conv]
  show "bt_n (kde_tree kde) = 3" by (rule tf(1))
  show "bt_lims (kde_tree kde) = (0, 5)" by (rule tf(2))
  show "kde_cutoff kde = 4" using f(6) h by simp
  show "kde_h kde = 1" using f(5) h by simp
  show "kde_s kde = ?s" by (rule f(4))
  define mids where "mids = midpoints (linspace 0 (5 :: real) (2 ^ 3 + 1))"
  have len: "length mids = 8" by (simp add: mids_def length_midpoints linspace_def)
  have dist: "distinct mids" unfolding mids_def by (rule distinct_midpoints_linspace) simp
  have m0: "mids ! 0 = 5 / 16"
    unfolding mids_def using midpoints_linspace_nth[of 0 "2 ^ 3" 0 5] by simp
  have "kde_slice_map kde (mids ! 0) =
      Some (zip (map (\<lambda>m. searchsorted ?s (m - 1 * 4)) mids)
               (map (\<lambda>m. searchsorted ?s (m + 1 * 4)) mids) ! 0)"
    unfolding f(7) e n h mids_def[symmetric]
    using dist len by (intro map_upds_nth_distinct) simp_all
  then show "kde_slice_map kde (5 / 16) = Some (0, 2)"
    using len by (simp add: m0 searchsorted_def)
qed

lemma example_kde_exists:
  "\<exists>kde. GaussianKDE_init [0, 4.2, 4.5, 5] (Some 1) False 5000 [] = Inr kde"
proof -
  have "region_layers (sort [0, 4.2, 4.5, 5 :: real] ! (length [0, 4.2, 4.5, 5 :: real] - 1)
      - sort [0, 4.2, 4.5, 5 :: real] ! 0) 1 = Inr (int 3)"
    unfolding sort_example by (simp add: layers_5_1)
  then show ?thesis by (intro GaussianKDE_init_explicit) simp_all
qed

lemma example_first_bucket:
  "leaf_nodes (linspace 0 5 (2 ^ 3 + 1)) 3 ! 0 = Lst [Num 0, Num (5 / 8), Num (5 / 16)]"
proof -
  have "(0 :: nat) < 2 ^ 3" by simp
  from row0_nth[OF this, of 0 "(5 - 0) / 2 ^ 3"] show ?thesis
    unfolding leaf_nodes_row by simp
qed

text \<open>
  The theorem of claim C4 for the sample \<open>[0, 4.2, 4.5, 5]\<close> with the bandwidth 1, at
  the first bucket.
\<close>

theorem slice_map_holds_samples_near_bucket_midpoint_witness:
  "\<exists>kde. GaussianKDE_init [0, 4.2, 4.5, 5] (Some 1) False 5000 [] = Inr kde
     \<and> 0 < (2 :: nat) ^ bt_n (kde_tree kde)
     \<and> sorted (kde_s kde) \<and> kde_cutoff kde = kde_h kde * 4 \<and> 0 < kde_h kde
     \<and> (\<exists>a b m l u.
       leaf_nodes (linspace (fst (bt_lims (kde_tree kde))) (snd (bt_lims (kde_tree kde)))
          (2 ^ bt_n (kde_tree kde) + 1)) (bt_n (kde_tree kde)) ! 0 = Lst [Num a, Num b, Num m]
     \<and> bt_mids (kde_tree kde) ! 0 = m
     \<and> kde_slice_map kde m = Some (l, u)
     \<and> (\<forall>j. l \<le> j \<and> j < u \<longleftrightarrow>
            j < length (kde_s kde) \<and> m - kde_cutoff kde \<le> kde_s kde ! j
              \<and> kde_s kde ! j < m + kde_cutoff kde)
     \<and> (\<forall>x j. a \<le> x \<and> x \<le> b \<and> j < length (kde_s kde) \<and> \<not> (l \<le> j \<and> j < u)
            \<longrightarrow> 3.5 * kde_h kde < \<bar>x - kde_s kde ! j\<bar>))"
proof -
  obtain kde where k: "GaussianKDE_init [0, 4.2, 4.5, 5] (Some 1) False 5000 [] = Inr kde"
    using example_kde_exists by blast
  have i: "0 < (2 :: nat) ^ bt_n (kde_tree kde)" by simp
  show ?thesis
    by (intro exI[of _ kde] conjI k i
        slice_map_holds_samples_near_bucket_midpoint[OF k i, THEN conjunct1]
        slice_map_holds_samples_near_bucket_midpoint[OF k i, THEN conjunct2, THEN conjunct1]
        slice_map_holds_samples_near_bucket_midpoint[OF k i, THEN conjunct2, THEN conjunct2, THEN conjunct1]
        slice_map_holds_samples_near_bucket_midpoint[OF k i, THEN conjunct2, THEN conjunct2, THEN conjunct2])
qed

text \<open>
  Claim C4 as stated fails for the sample \<open>[0, 4.2, 4.5, 5]\<close> with the bandwidth 1
  (cutoff 4, eight buckets). The first bucket is \<open>[0, 5/8]\<close> with midpoint \<open>5/16\<close> and
  its slice is \<open>(0, 2)\<close>. The sample \<open>4.5\<close> (index 2) is within the cutoff of the point
  \<open>5/8\<close> of the bucket and is not in the slice; the sample \<open>4.2\<close> (index 1) is in the
  slice and is farther than the cutoff from the point \<open>0\<close> of the bucket. So the slice
  is neither the samples within the cutoff of some point of the bucket nor those within
  the cutoff of all its points.
\<close>

theorem slice_map_not_within_cutoff_of_bucket_counterexample:
  "\<exists>kde. GaussianKDE_init [0, 4.2, 4.5, 5] (Some 1) False 5000 [] = Inr kde
     \<and> kde_s kde = [0, 4.2, 4.5, 5] \<and> kde_cutoff kde = 4
     \<and> leaf_nodes (linspace (fst (bt_lims (kde_tree kde))) (snd (bt_lims (kde_tree kde)))
          (2 ^ bt_n (kde_tree kde) + 1)) (bt_n (kde_tree kde)) ! 0
         = Lst [Num 0, Num (5 / 8), Num (5 / 16)]
     \<and> kde_slice_map kde (5 / 16) = Some (0, 2)
     \<and> \<bar>kde_s kde ! 2 - 5 / 8\<bar> \<le> kde_cutoff kde
     \<and> kde_cutoff kde < \<bar>kde_s kde ! 1 - 0\<bar>"
proof -
  obtain kde where k: "GaussianKDE_init [0, 4.2, 4.5, 5] (Some 1) False 5000 [] = Inr kde"
    using example_kde_exists by blast
  note e = example_kde[OF k]
  have b: "leaf_nodes (linspace (fst (bt_lims (kde_tree kde))) (snd (bt_lims (kde_tree kde)))
          (2 ^ bt_n (kde_tree kde) + 1)) (bt_n (kde_tree kde)) ! 0
         = Lst [Num 0, Num (5 / 8), Num (5 / 16)]"
    unfolding e(1) e(6) fst_conv snd_conv by (rule example_first_bucket)
  have c: "\<bar>kde_s kde ! 2 - 5 / 8\<bar> \<le> kde_cutoff kde" unfolding e(2) e(4) by simp
  have d: "kde_cutoff kde < \<bar>kde_s kde ! 1 - 0\<bar>" unfolding e(2) e(4) by simp
  show ?thesis
    by (intro exI[of _ kde] conjI k e(4) e(2) b e(5) c d)
qed

end
